theory Spec2Isabelle
  imports Main "HOL-Library.Word"
begin

unbundle bit_operations_syntax

section \<open>Results of calls\<close>

text \<open>
  Two exceptions can end a call of the two source files: the \<open>TypeError\<close> of a property
  access on \<open>undefined\<close>, and the \<open>RangeError\<close> of a \<open>push\<close> onto an array that cannot
  grow any more. A call that may raise returns \<open>error + 'a\<close>; a call that may also run
  forever returns an option of that, \<open>None\<close> standing for a call that does not return.
\<close>

datatype error = TypeError | RangeError

type_synonym 'a res = "error + 'a"

section \<open>cfg.ts\<close>

text \<open>
  Objects live in stores and a reference to an object is its index in the store. A
  reference that is not an index of the store plays the part of \<open>undefined\<close>.
  The class \<open>BasicBlock\<close> has the fields \<open>name\<close>, \<open>id\<close>, \<open>inEdges\<close> and
  \<open>outEdges\<close>. cfg.ts declares \<open>name\<close> a string and never inspects it, so the
  operations of cfg.ts are modelled for any type of names. havlak.ts indexes arrays with
  \<open>name\<close> and passes it to \<open>mix\<close>, whose parameters are numbers: the operations of
  havlak.ts are modelled for blocks whose \<open>name\<close> is a natural number.
\<close>

type_synonym ref = nat

record 'n BasicBlock =
  name :: 'n
  id' :: int
  inEdges :: "ref list"
  outEdges :: "ref list"

text \<open>
  The store of all \<open>BasicBlock\<close> objects together with the static counter
  \<open>BasicBlock.numBasicBlocks\<close>.
\<close>

record 'n world =
  blocks :: "'n BasicBlock list"
  numBasicBlocks :: int

record CFG =
  basicBlockMap :: "(int \<times> ref) list"
  edgeList :: "(ref \<times> ref) list"
  startNode :: "ref option"

definition deref :: "'a list \<Rightarrow> nat \<Rightarrow> 'a option" where
  "deref store r = (if r < length store then Some (store ! r) else None)"

definition new_CFG :: CFG where
  "new_CFG = \<lparr>basicBlockMap = [], edgeList = [], startNode = None\<rparr>"

definition new_BasicBlock :: "'n world \<Rightarrow> 'n \<Rightarrow> int \<Rightarrow> ref \<times> 'n world" where
  "new_BasicBlock wd nm i =
     (length (blocks wd),
      wd\<lparr>blocks := blocks wd @ [\<lparr>name = nm, id' = i, inEdges = [], outEdges = []\<rparr>],
         numBasicBlocks := numBasicBlocks wd + 1\<rparr>)"

definition getNumPred :: "'n BasicBlock \<Rightarrow> nat" where
  "getNumPred b = length (inEdges b)"

definition addInEdge :: "'n world \<Rightarrow> ref \<Rightarrow> ref \<Rightarrow> 'n world res" where
  "addInEdge wd this bb =
     (case deref (blocks wd) this of
        None \<Rightarrow> Inl TypeError
      | Some b \<Rightarrow> Inr (wd\<lparr>blocks := (blocks wd)[this := b\<lparr>inEdges := inEdges b @ [bb]\<rparr>]\<rparr>))"

definition addOutEdge :: "'n world \<Rightarrow> ref \<Rightarrow> ref \<Rightarrow> 'n world res" where
  "addOutEdge wd this bb =
     (case deref (blocks wd) this of
        None \<Rightarrow> Inl TypeError
      | Some b \<Rightarrow> Inr (wd\<lparr>blocks := (blocks wd)[this := b\<lparr>outEdges := outEdges b @ [bb]\<rparr>]\<rparr>))"

definition getNumNodes :: "CFG \<Rightarrow> nat" where
  "getNumNodes cfg = length (basicBlockMap cfg)"

definition addEdge :: "CFG \<Rightarrow> ref \<times> ref \<Rightarrow> CFG" where
  "addEdge cfg edge = cfg\<lparr>edgeList := edgeList cfg @ [edge]\<rparr>"

text \<open>
  The constructor of \<open>BasicBlockEdge\<close>: it stores both ends, appends \<open>to\<close> to the
  out-edges of \<open>from\<close> and \<open>from\<close> to the in-edges of \<open>to\<close>, and registers the edge
  with the graph. The graph is consulted for nothing else.
\<close>

definition new_BasicBlockEdge :: "'n world \<Rightarrow> CFG \<Rightarrow> ref \<Rightarrow> ref \<Rightarrow> ('n world \<times> CFG) res" where
  "new_BasicBlockEdge wd cfg from to =
     (case addOutEdge wd from to of
        Inl e \<Rightarrow> Inl e
      | Inr wd1 \<Rightarrow>
          (case addInEdge wd1 to from of
             Inl e \<Rightarrow> Inl e
           | Inr wd2 \<Rightarrow> Inr (wd2, addEdge cfg (from, to))))"

definition createNode :: "'n world \<Rightarrow> CFG \<Rightarrow> 'n \<Rightarrow> int \<Rightarrow> ref \<times> 'n world \<times> CFG" where
  "createNode wd cfg nm i =
     (let (node, wd1, cfg1) =
            (case map_of (basicBlockMap cfg) i of
               None \<Rightarrow>
                 (let (node, wd1) = new_BasicBlock wd nm i
                  in (node, wd1, cfg\<lparr>basicBlockMap := basicBlockMap cfg @ [(i, node)]\<rparr>))
             | Some node \<Rightarrow> (node, wd, cfg));
          cfg2 = (if getNumNodes cfg1 = 1 then cfg1\<lparr>startNode := Some node\<rparr> else cfg1)
      in (node, wd1, cfg2))"

text \<open>A block is registered in a graph when the graph's map holds it.\<close>

definition registered :: "CFG \<Rightarrow> ref \<Rightarrow> bool" where
  "registered cfg r = (r \<in> snd ` set (basicBlockMap cfg))"

section \<open>havlak.ts: loops and the loop structure graph\<close>

text \<open>
  JavaScript's \<open>&\<close> reads the low 32 bits of its operand, so \<open>existing & 0x0fffffff\<close>
  is the low 28 bits of \<open>existing\<close>; shifting them left by one stays below \<open>2 ^ 29\<close>,
  and the final addition is the addition of numbers, which does not wrap.
\<close>

definition mix :: "int \<Rightarrow> int \<Rightarrow> int" where
  "mix existing v = push_bit 1 (existing AND 0x0fffffff) + v"

type_synonym lref = nat

record SimpleLoop =
  basicBlocks :: "ref option list"
  children :: "lref list"
  counter :: int
  parent :: "lref option"
  header :: "ref option"
  isRoot :: bool
  isReducible :: bool
  nestingLevel :: int
  depthLevel :: int

definition new_SimpleLoop :: "int \<Rightarrow> SimpleLoop" where
  "new_SimpleLoop c =
     \<lparr>basicBlocks = [], children = [], counter = c, parent = None, header = None,
      isRoot = False, isReducible = True, nestingLevel = 0, depthLevel = 0\<rparr>"

text \<open>
  The methods of \<open>SimpleLoop\<close> act on the store of loop objects. \<open>addNode\<close> is handed
  \<open>node.bb\<close>, which is \<open>undefined\<close> on a union-find node that was never initialised, so
  the member list holds optional references.
\<close>

definition modify :: "'a list \<Rightarrow> nat \<Rightarrow> ('a \<Rightarrow> 'a) \<Rightarrow> 'a list" where
  "modify store r f = (if r < length store then store[r := f (store ! r)] else store)"

definition addNode :: "SimpleLoop list \<Rightarrow> lref \<Rightarrow> ref option \<Rightarrow> SimpleLoop list" where
  "addNode ls this bb = modify ls this (\<lambda>l. l\<lparr>basicBlocks := basicBlocks l @ [bb]\<rparr>)"

definition addChildLoop :: "SimpleLoop list \<Rightarrow> lref \<Rightarrow> lref \<Rightarrow> SimpleLoop list" where
  "addChildLoop ls this loop = modify ls this (\<lambda>l. l\<lparr>children := children l @ [loop]\<rparr>)"

definition setParent :: "SimpleLoop list \<Rightarrow> lref \<Rightarrow> lref \<Rightarrow> SimpleLoop list" where
  "setParent ls this p = addChildLoop (modify ls this (\<lambda>l. l\<lparr>parent := Some p\<rparr>)) p this"

definition setHeader :: "SimpleLoop list \<Rightarrow> lref \<Rightarrow> ref \<Rightarrow> SimpleLoop list" where
  "setHeader ls this bb =
     modify ls this (\<lambda>l. l\<lparr>basicBlocks := basicBlocks l @ [Some bb], header := Some bb\<rparr>)"

definition setNestingLevel :: "SimpleLoop \<Rightarrow> int \<Rightarrow> SimpleLoop" where
  "setNestingLevel l level =
     (let l1 = l\<lparr>nestingLevel := level\<rparr> in if level = 0 then l1\<lparr>isRoot := True\<rparr> else l1)"

text \<open>
  \<open>SimpleLoop.checksum\<close> calls itself on every child. The recursion is bounded by fuel;
  \<open>None\<close> is a call that runs out of it. A block's \<open>name\<close> is what is mixed in.
\<close>

fun mixNames :: "nat BasicBlock list \<Rightarrow> ref option list \<Rightarrow> int \<Rightarrow> int res" where
  "mixNames bs [] result = Inr result"
| "mixNames bs (e # es) result =
     (case e of
        None \<Rightarrow> Inl TypeError
      | Some r \<Rightarrow>
          (case deref bs r of
             None \<Rightarrow> Inl TypeError
           | Some b \<Rightarrow> mixNames bs es (mix result (int (name b)))))"

fun checksum :: "nat \<Rightarrow> nat BasicBlock list \<Rightarrow> SimpleLoop list \<Rightarrow> lref \<Rightarrow> int res option"
and mixChildren ::
  "nat \<Rightarrow> nat BasicBlock list \<Rightarrow> SimpleLoop list \<Rightarrow> lref list \<Rightarrow> int \<Rightarrow> int res option"
where
  "checksum 0 bs ls this = None"
| "checksum (Suc fuel) bs ls this =
     (case deref ls this of
        None \<Rightarrow> Some (Inl TypeError)
      | Some l \<Rightarrow>
          (let result = counter l;
               result = mix result (if isRoot l then 1 else 0);
               result = mix result (if isReducible l then 1 else 0);
               result = mix result (nestingLevel l);
               result = mix result (depthLevel l)
           in case (case header l of
                      None \<Rightarrow> Inr result
                    | Some h \<Rightarrow> mixNames bs [Some h] result) of
                Inl e \<Rightarrow> Some (Inl e)
              | Inr result \<Rightarrow>
                  (case mixNames bs (basicBlocks l) result of
                     Inl e \<Rightarrow> Some (Inl e)
                   | Inr result \<Rightarrow> mixChildren fuel bs ls (children l) result)))"
| "mixChildren fuel bs ls [] result = Some (Inr result)"
| "mixChildren fuel bs ls (e # es) result =
     (case checksum fuel bs ls e of
        None \<Rightarrow> None
      | Some (Inl err) \<Rightarrow> Some (Inl err)
      | Some (Inr c) \<Rightarrow> mixChildren fuel bs ls es (mix result c))"

record LSG =
  loopCounter :: int
  loops :: "lref list"
  root :: lref
  objs :: "SimpleLoop list"

text \<open>
  The field \<open>objs\<close> is the store of the \<open>SimpleLoop\<close> objects; the constructor of
  \<open>LSG\<close> allocates the root there with serial id 0, sets its nesting level and pushes
  it on \<open>loops\<close>.
\<close>

definition new_LSG :: LSG where
  "new_LSG =
     \<lparr>loopCounter = 1, loops = [0], root = 0, objs = [setNestingLevel (new_SimpleLoop 0) 0]\<rparr>"

definition createNewLoop :: "LSG \<Rightarrow> lref \<times> LSG" where
  "createNewLoop g =
     (length (objs g),
      g\<lparr>objs := objs g @ [new_SimpleLoop (loopCounter g)], loopCounter := loopCounter g + 1\<rparr>)"

definition addLoop :: "LSG \<Rightarrow> lref \<Rightarrow> LSG" where
  "addLoop g loop = g\<lparr>loops := loops g @ [loop]\<rparr>"

definition getNumLoops :: "LSG \<Rightarrow> nat" where
  "getNumLoops g = length (loops g)"

text \<open>
  A chain of children longer than the store has loops on it twice, and then the
  recursion of \<open>SimpleLoop.checksum\<close> never ends: the fuel handed out by the forest
  is the size of its store plus one.
\<close>

definition loopChecksum :: "nat BasicBlock list \<Rightarrow> SimpleLoop list \<Rightarrow> lref \<Rightarrow> int res option" where
  "loopChecksum bs ls this = checksum (Suc (length ls)) bs ls this"

definition LSG_checksum :: "nat BasicBlock list \<Rightarrow> LSG \<Rightarrow> int res option" where
  "LSG_checksum bs g =
     (case mixChildren (Suc (length (objs g))) bs (objs g) (loops g) (int (length (loops g))) of
        None \<Rightarrow> None
      | Some (Inl e) \<Rightarrow> Some (Inl e)
      | Some (Inr result) \<Rightarrow>
          (case loopChecksum bs (objs g) (root g) of
             None \<Rightarrow> None
           | Some (Inl e) \<Rightarrow> Some (Inl e)
           | Some (Inr c) \<Rightarrow> Some (Inr (mix result c))))"

section \<open>havlak.ts: union-find nodes\<close>

text \<open>
  The objects of class \<open>UnionFindNode\<close> are created once, one for each slot of the
  array \<open>nodes\<close>, and the slots are never assigned again: a reference to a union-find
  node is the index of its slot. An array is a map from indices to values; reading
  it where nothing was stored gives \<open>undefined\<close>, that is \<open>None\<close>.
\<close>

record UnionFindNode =
  dfsNumber :: nat
  parent :: "nat option"
  bb :: "ref option"
  loop :: "lref option"

definition new_UnionFindNode :: UnionFindNode where
  "new_UnionFindNode = \<lparr>dfsNumber = 0, parent = None, bb = None, loop = None\<rparr>"

definition initNode :: "UnionFindNode \<Rightarrow> nat \<Rightarrow> ref \<Rightarrow> nat \<Rightarrow> UnionFindNode" where
  "initNode n this b d = n\<lparr>parent := Some this, bb := Some b, dfsNumber := d\<rparr>"

text \<open>
  The length of an array is below \<open>2 ^ 32\<close>; a \<open>push\<close> onto an array of the largest
  length raises \<open>RangeError\<close>. An engine that runs out of memory earlier raises it
  earlier; nothing below depends on the value of the bound, only on there being one.
\<close>

definition MAX_ARRAY_LENGTH :: nat where
  "MAX_ARRAY_LENGTH = 4294967295"

text \<open>
  The \<open>while\<close> loop of \<open>findSet\<close>: it follows parent links until it meets a node that
  is its own parent, and pushes onto \<open>nodeList\<close> the nodes whose parent is not such a
  node. Every round but the last one pushes, so on parent links that lead to no such
  node the loop ends with the \<open>RangeError\<close> of the \<open>push\<close>.
\<close>

function findSet_while ::
  "(nat \<rightharpoonup> UnionFindNode) \<Rightarrow> nat \<Rightarrow> nat list \<Rightarrow> (nat \<times> nat list) res"
where
  "findSet_while ns node nodeList =
     (case ns node of
        None \<Rightarrow> Inl TypeError
      | Some n \<Rightarrow>
          if parent n = Some node then Inr (node, nodeList)
          else (case parent n of
                  None \<Rightarrow> Inl TypeError
                | Some p \<Rightarrow>
                    (case ns p of
                       None \<Rightarrow> Inl TypeError
                     | Some pn \<Rightarrow>
                         if parent pn \<noteq> Some p then
                           (if length nodeList < MAX_ARRAY_LENGTH
                            then findSet_while ns p (nodeList @ [node])
                            else Inl RangeError)
                         else findSet_while ns p nodeList)))"
  by pat_completeness auto

termination findSet_while
proof (relation "inv_image (less_than <*lex*> less_than)
    (\<lambda>(ns, node, nodeList).
       (MAX_ARRAY_LENGTH - length nodeList,
        case ns node of None \<Rightarrow> 0::nat | Some n \<Rightarrow> if parent n = Some node then 0 else 1))")
  show "wf (inv_image (less_than <*lex*> less_than)
    (\<lambda>(ns, node, nodeList).
       (MAX_ARRAY_LENGTH - length nodeList,
        case ns node of None \<Rightarrow> 0::nat | Some n \<Rightarrow> if parent n = Some node then 0 else 1)))"
    by (intro wf_inv_image wf_lex_prod wf_less_than)
qed auto

declare findSet_while.simps [simp del]

definition setUFParent :: "(nat \<rightharpoonup> UnionFindNode) \<Rightarrow> nat \<Rightarrow> nat option \<Rightarrow> (nat \<rightharpoonup> UnionFindNode)" where
  "setUFParent ns x p = (case ns x of None \<Rightarrow> ns | Some n \<Rightarrow> ns(x \<mapsto> n\<lparr>parent := p\<rparr>))"

text \<open>
  \<open>findSet\<close>: the loop, and then the assignment of the parent of the node found, which
  is the node itself, to every node of \<open>nodeList\<close>.
\<close>

definition findSet :: "(nat \<rightharpoonup> UnionFindNode) \<Rightarrow> nat \<Rightarrow> (nat \<times> (nat \<rightharpoonup> UnionFindNode)) res" where
  "findSet ns this =
     (case findSet_while ns this [] of
        Inl e \<Rightarrow> Inl e
      | Inr (node, nodeList) \<Rightarrow>
          Inr (node, foldl (\<lambda>ns' x. setUFParent ns' x (Some node)) ns nodeList))"

definition union :: "(nat \<rightharpoonup> UnionFindNode) \<Rightarrow> nat \<Rightarrow> nat \<Rightarrow> (nat \<rightharpoonup> UnionFindNode)" where
  "union ns this unionFindNode = setUFParent ns this (Some unionFindNode)"

section \<open>havlak.ts: the loop finder\<close>

definition BB_TOP :: int where "BB_TOP = 0"
definition BB_NONHEADER :: int where "BB_NONHEADER = 1"
definition BB_REDUCIBLE :: int where "BB_REDUCIBLE = 2"
definition BB_SELF :: int where "BB_SELF = 3"
definition BB_IRREDUCIBLE :: int where "BB_IRREDUCIBLE = 4"
definition BB_DEAD :: int where "BB_DEAD = 5"
definition BB_LAST :: int where "BB_LAST = 6"

definition UNVISITED :: int where "UNVISITED = - 1"

definition MAXNONBACKPREDS :: nat where "MAXNONBACKPREDS = 32 * 1024"

text \<open>
  \<open>isAncestor\<close> compares numbers. Its second argument is read from the array
  \<open>numbers\<close> and may be \<open>undefined\<close>, and so may \<open>last[w]\<close>; a comparison with
  \<open>undefined\<close> is false.
\<close>

definition isAncestor :: "nat \<Rightarrow> int option \<Rightarrow> (nat \<rightharpoonup> nat) \<Rightarrow> bool" where
  "isAncestor w v last' =
     (case v of
        None \<Rightarrow> False
      | Some v' \<Rightarrow> int w \<le> v' \<and> (case last' w of None \<Rightarrow> False | Some l \<Rightarrow> v' \<le> int l))"

text \<open>
  The assignment \<open>last[i] = lastid\<close> for an index read from \<open>numbers\<close>. An index
  that is negative or \<open>undefined\<close> names a property that no later read looks at.
\<close>

definition setLast :: "(nat \<rightharpoonup> nat) \<Rightarrow> int option \<Rightarrow> nat \<Rightarrow> (nat \<rightharpoonup> nat)" where
  "setLast last' i lastid =
     (case i of
        None \<Rightarrow> last'
      | Some i' \<Rightarrow> if 0 \<le> i' then last'(nat i' \<mapsto> lastid) else last')"

type_synonym arrays = "(nat \<rightharpoonup> UnionFindNode) \<times> (nat \<rightharpoonup> int) \<times> (nat \<rightharpoonup> nat)"

function DFS :: "nat BasicBlock list \<Rightarrow> ref \<Rightarrow> arrays \<Rightarrow> nat \<Rightarrow> (arrays \<times> nat) res"
and DFS_for :: "nat BasicBlock list \<Rightarrow> ref \<Rightarrow> nat \<Rightarrow> arrays \<Rightarrow> nat \<Rightarrow> (arrays \<times> nat) res"
where
  "DFS bs currentNode (nodes, numbers, last') current =
     (case nodes current of
        None \<Rightarrow> Inl TypeError
      | Some n \<Rightarrow>
          (case deref bs currentNode of
             None \<Rightarrow> Inl TypeError
           | Some b \<Rightarrow>
               (case DFS_for bs currentNode 0
                       (nodes(current \<mapsto> initNode n current currentNode current),
                        numbers(name b \<mapsto> int current), last') current of
                  Inl e \<Rightarrow> Inl e
                | Inr ((nodes2, numbers2, last2), lastid) \<Rightarrow>
                    Inr ((nodes2, numbers2, setLast last2 (numbers2 (name b)) lastid), lastid))))"
| "DFS_for bs currentNode target (nodes, numbers, last') lastid =
     (case deref bs currentNode of
        None \<Rightarrow> Inl TypeError
      | Some b \<Rightarrow>
          if target < length (outEdges b) then
            (case deref bs (outEdges b ! target) of
               None \<Rightarrow> Inl TypeError
             | Some t \<Rightarrow>
                 if numbers (name t) = Some UNVISITED then
                   (case DFS bs (outEdges b ! target) (nodes, numbers, last') (lastid + 1) of
                      Inl e \<Rightarrow> Inl e
                    | Inr (arrs, lastid2) \<Rightarrow> DFS_for bs currentNode (target + 1) arrs lastid2)
                 else DFS_for bs currentNode (target + 1) (nodes, numbers, last') lastid)
          else Inr ((nodes, numbers, last'), lastid))"
  by pat_completeness auto


text \<open>
  Termination of the traversal: a recursive call is made on a block whose name is still
  marked unvisited, and entering the call replaces the mark by a number, which is never
  the mark. The blocks of the store whose name carries the mark become fewer.
\<close>

definition unvisited :: "nat BasicBlock list \<Rightarrow> (nat \<rightharpoonup> int) \<Rightarrow> nat" where
  "unvisited bs numbers = card {r. r < length bs \<and> numbers (name (bs ! r)) = Some UNVISITED}"

definition stays_visited :: "(nat \<rightharpoonup> int) \<Rightarrow> (nat \<rightharpoonup> int) \<Rightarrow> bool" where
  "stays_visited numbers numbers2 = (\<forall>k. numbers2 k = Some UNVISITED \<longrightarrow> numbers k = Some UNVISITED)"

lemma stays_visited_refl: "stays_visited numbers numbers"
  by (simp add: stays_visited_def)

lemma stays_visited_trans:
  "stays_visited a b \<Longrightarrow> stays_visited b c \<Longrightarrow> stays_visited a c"
  by (simp add: stays_visited_def)

lemma stays_visited_mark: "stays_visited numbers (numbers(k \<mapsto> int current))"
  by (simp add: stays_visited_def UNVISITED_def)

lemma unvisited_mono:
  assumes "stays_visited numbers numbers2"
  shows "unvisited bs numbers2 \<le> unvisited bs numbers"
  unfolding unvisited_def
proof (rule card_mono)
  show "finite {r. r < length bs \<and> numbers (name (bs ! r)) = Some UNVISITED}" by simp
  show "{r. r < length bs \<and> numbers2 (name (bs ! r)) = Some UNVISITED}
        \<subseteq> {r. r < length bs \<and> numbers (name (bs ! r)) = Some UNVISITED}"
    using assms by (auto simp: stays_visited_def)
qed

lemma unvisited_mark_less:
  assumes "deref bs r = Some b" and "numbers (name b) = Some UNVISITED" and "0 \<le> v"
  shows "unvisited bs (numbers(name b \<mapsto> v)) < unvisited bs numbers"
  unfolding unvisited_def
proof (rule psubset_card_mono)
  show "finite {r. r < length bs \<and> numbers (name (bs ! r)) = Some UNVISITED}" by simp
  have r: "r < length bs" "bs ! r = b"
    using assms(1) by (auto simp: deref_def split: if_splits)
  have "r \<in> {r. r < length bs \<and> numbers (name (bs ! r)) = Some UNVISITED}"
    using r assms(2) by simp
  moreover have "r \<notin> {r. r < length bs \<and> (numbers(name b \<mapsto> v)) (name (bs ! r)) = Some UNVISITED}"
    using r assms(3) by (auto simp: UNVISITED_def)
  moreover have "{r. r < length bs \<and> (numbers(name b \<mapsto> v)) (name (bs ! r)) = Some UNVISITED}
        \<subseteq> {r. r < length bs \<and> numbers (name (bs ! r)) = Some UNVISITED}"
    using assms(3) by (auto simp: UNVISITED_def)
  ultimately show "{r. r < length bs \<and> (numbers(name b \<mapsto> v)) (name (bs ! r)) = Some UNVISITED}
        \<subset> {r. r < length bs \<and> numbers (name (bs ! r)) = Some UNVISITED}"
    by blast
qed

lemma DFS_dom_stays_visited:
  "DFS_DFS_for_dom (Inl (bs, c, (nodes, numbers, last'), current)) \<Longrightarrow>
     DFS bs c (nodes, numbers, last') current = Inr ((nodes2, numbers2, last2), lastid2) \<Longrightarrow>
     stays_visited numbers numbers2"
  "DFS_DFS_for_dom (Inr (bs, c, target, (nodes, numbers, last'), lastid)) \<Longrightarrow>
     DFS_for bs c target (nodes, numbers, last') lastid = Inr ((nodes2, numbers2, last2), lastid2) \<Longrightarrow>
     stays_visited numbers numbers2"
proof (induction bs c "(nodes, numbers, last')" current and bs c target "(nodes, numbers, last')" lastid
    arbitrary: nodes numbers last' nodes2 numbers2 last2 lastid2 and nodes numbers last' nodes2 numbers2 last2 lastid2
    rule: DFS_DFS_for.pinduct)
  case (1 bs currentNode nodes numbers last' current)
  from "1.prems" "1.hyps"(1) obtain n b nodes3 numbers3 last3 where
    n: "nodes current = Some n" and b: "deref bs currentNode = Some b" and
    r: "DFS_for bs currentNode 0 (nodes(current \<mapsto> initNode n current currentNode current),
          numbers(name b \<mapsto> int current), last') current = Inr ((nodes3, numbers3, last3), lastid2)"
    and e: "numbers2 = numbers3"
    by (auto simp: DFS.psimps split: option.splits sum.splits)
  have "stays_visited (numbers(name b \<mapsto> int current)) numbers3"
    using "1.hyps"(2) [OF n b r] .
  with stays_visited_mark [of numbers "name b" current] e show ?case
    by (blast intro: stays_visited_trans)
next
  case (2 bs currentNode target nodes numbers last' lastid)
  show ?case
  proof (cases "deref bs currentNode")
    case None
    with "2.prems" "2.hyps"(1) show ?thesis by (simp add: DFS_for.psimps)
  next
    case (Some b)
    show ?thesis
    proof (cases "target < length (outEdges b)")
      case False
      with Some "2.prems" "2.hyps"(1) show ?thesis
        by (simp add: DFS_for.psimps stays_visited_refl)
    next
      case True
      show ?thesis
      proof (cases "deref bs (outEdges b ! target)")
        case None
        with Some True "2.prems" "2.hyps"(1) show ?thesis by (simp add: DFS_for.psimps)
      next
        case t: (Some t)
        show ?thesis
        proof (cases "numbers (name t) = Some UNVISITED")
          case False
          with Some True t "2.prems" "2.hyps"(1)
          have "DFS_for bs currentNode (target + 1) (nodes, numbers, last') lastid
                  = Inr ((nodes2, numbers2, last2), lastid2)"
            by (simp add: DFS_for.psimps)
          from "2.hyps"(4) [OF Some True t False this] show ?thesis .
        next
          case u: True
          with Some True t "2.prems" "2.hyps"(1) obtain nodes3 numbers3 last3 lastid3 where
            d: "DFS bs (outEdges b ! target) (nodes, numbers, last') (lastid + 1)
                  = Inr ((nodes3, numbers3, last3), lastid3)" and
            f: "DFS_for bs currentNode (target + 1) (nodes3, numbers3, last3) lastid3
                  = Inr ((nodes2, numbers2, last2), lastid2)"
            by (auto simp: DFS_for.psimps split: sum.splits)
          have "stays_visited numbers numbers3"
            using "2.hyps"(2) [OF Some True t u d] .
          moreover have "stays_visited numbers3 numbers2"
            using "2.hyps"(3) [OF Some True t u d refl f] .
          ultimately show ?thesis by (rule stays_visited_trans)
        qed
      qed
    qed
  qed
qed

termination DFS
proof (relation "inv_image (less_than <*lex*> less_than <*lex*> less_than)
     (\<lambda>x. case x of
        Inl (bs, c, (nodes, numbers, last'), current) \<Rightarrow>
          (unvisited bs (case deref bs c of None \<Rightarrow> numbers | Some b \<Rightarrow> numbers(name b \<mapsto> int current)), 1::nat, 0::nat)
      | Inr (bs, c, target, (nodes, numbers, last'), lastid) \<Rightarrow>
          (unvisited bs numbers, 0, (case deref bs c of None \<Rightarrow> 0 | Some b \<Rightarrow> length (outEdges b) - target)))", goal_cases)
  case 1
  show ?case by (intro wf_inv_image wf_lex_prod wf_less_than)
next
  case (2 bs currentNode nodes numbers last' current n b)
  then show ?case by simp
next
  case (3 bs currentNode target nodes numbers last' lastid b t)
  then show ?case by (simp add: unvisited_mark_less)
next
  case (4 bs currentNode target nodes numbers last' lastid b t arrs x y)
  obtain nodes3 numbers3 last3 where x: "x = (nodes3, numbers3, last3)" by (cases x)
  have "DFS bs (outEdges b ! target) (nodes, numbers, last') (lastid + 1)
          = Inr ((nodes3, numbers3, last3), y)"
    using 4 x by simp
  with 4 have "stays_visited numbers numbers3"
    by (blast intro: DFS_dom_stays_visited(1))
  then have "unvisited bs numbers3 \<le> unvisited bs numbers" by (rule unvisited_mono)
  with 4 x show ?case by auto
next
  case (5 bs currentNode target nodes numbers last' lastid b t)
  then show ?case by auto
qed


declare DFS.simps [simp del] DFS_for.simps [simp del]

text \<open>
  The arrays that \<open>findLoops\<close> allocates. \<open>backPreds\<close> and \<open>nonBackPreds\<close> hold
  what was read from \<open>numbers\<close>, which is a number or \<open>undefined\<close>.
\<close>

record locals =
  nonBackPreds :: "nat \<rightharpoonup> int option list"
  backPreds :: "nat \<rightharpoonup> int option list"
  numbers :: "nat \<rightharpoonup> int"
  header' :: "nat \<rightharpoonup> nat"
  types :: "nat \<rightharpoonup> int"
  last' :: "nat \<rightharpoonup> nat"
  nodes :: "nat \<rightharpoonup> UnionFindNode"

definition newArray :: "nat \<Rightarrow> 'a \<Rightarrow> (nat \<rightharpoonup> 'a)" where
  "newArray size' v = (\<lambda>i. if i < size' then Some v else None)"

definition initLocals :: "nat \<Rightarrow> locals" where
  "initLocals size' =
     \<lparr>nonBackPreds = newArray size' [], backPreds = newArray size' [],
      numbers = newArray size' UNVISITED, header' = newArray size' 0,
      types = newArray size' BB_NONHEADER, last' = newArray size' 0,
      nodes = newArray size' new_UnionFindNode\<rparr>"

text \<open>An array index that is a number read from an array, or \<open>undefined\<close>.\<close>

definition arrayIndex :: "int option \<Rightarrow> nat option" where
  "arrayIndex v = (case v of None \<Rightarrow> None | Some i \<Rightarrow> if 0 \<le> i then Some (nat i) else None)"

subsection \<open>Step b: back edges and the other edges\<close>

fun stepB_inEdges :: "nat BasicBlock list \<Rightarrow> nat \<Rightarrow> ref list \<Rightarrow> locals \<Rightarrow> locals res" where
  "stepB_inEdges bs w [] st = Inr st"
| "stepB_inEdges bs w (nodeV # rest) st =
     (case deref bs nodeV of
        None \<Rightarrow> Inl TypeError
      | Some bv \<Rightarrow>
          (let v = numbers st (name bv) in
           if v \<noteq> Some UNVISITED then
             (if isAncestor w v (last' st) then
                (case backPreds st w of
                   None \<Rightarrow> Inl TypeError
                 | Some l \<Rightarrow> stepB_inEdges bs w rest (st\<lparr>backPreds := (backPreds st)(w \<mapsto> l @ [v])\<rparr>))
              else
                (case nonBackPreds st w of
                   None \<Rightarrow> Inl TypeError
                 | Some l \<Rightarrow>
                     stepB_inEdges bs w rest (st\<lparr>nonBackPreds := (nonBackPreds st)(w \<mapsto> l @ [v])\<rparr>)))
           else stepB_inEdges bs w rest st))"

definition stepB_body :: "nat BasicBlock list \<Rightarrow> nat \<Rightarrow> locals \<Rightarrow> locals res" where
  "stepB_body bs w st =
     (case nodes st w of
        None \<Rightarrow> Inl TypeError
      | Some n \<Rightarrow>
          (case bb n of
             None \<Rightarrow> Inr (st\<lparr>types := (types st)(w \<mapsto> BB_DEAD)\<rparr>)
           | Some nodeW \<Rightarrow>
               (case deref bs nodeW of
                  None \<Rightarrow> Inl TypeError
                | Some b \<Rightarrow>
                    if getNumPred b > 0 then stepB_inEdges bs w (inEdges b) st else Inr st)))"

fun stepB :: "nat BasicBlock list \<Rightarrow> nat list \<Rightarrow> locals \<Rightarrow> locals res" where
  "stepB bs [] st = Inr st"
| "stepB bs (w # ws) st =
     (case stepB_body bs w st of Inl e \<Rightarrow> Inl e | Inr st1 \<Rightarrow> stepB bs ws st1)"

subsection \<open>Steps c, d and e: one header at a time\<close>

text \<open>
  \<open>findLoops\<close> leaves by \<open>return 0\<close> from inside the work list loop; \<open>Return0\<close> is that
  exit, \<open>Next\<close> the normal end of a loop.
\<close>

datatype 'a ctl = Return0 | Next 'a

fun stepD :: "nat \<Rightarrow> int option list \<Rightarrow> locals \<Rightarrow> nat list \<Rightarrow> (locals \<times> nat list) res" where
  "stepD w [] st nodePool = Inr (st, nodePool)"
| "stepD w (v # vs) st nodePool =
     (if v \<noteq> Some (int w) then
        (case arrayIndex v of
           None \<Rightarrow> Inl TypeError
         | Some i \<Rightarrow>
             (case findSet (nodes st) i of
                Inl e \<Rightarrow> Inl e
              | Inr (r, ns) \<Rightarrow> stepD w vs (st\<lparr>nodes := ns\<rparr>) (nodePool @ [r])))
      else stepD w vs (st\<lparr>types := (types st)(w \<mapsto> BB_SELF)\<rparr>) nodePool)"

text \<open>
  The \<open>for\<close> loop of step e reads \<open>nonBackPreds[x.dfsNumber]\<close> and its length anew in
  every round, while its body appends to \<open>nonBackPreds[w]\<close>.
\<close>

partial_function (option) stepE_for ::
  "nat \<Rightarrow> nat \<Rightarrow> nat \<Rightarrow> locals \<Rightarrow> nat list \<Rightarrow> nat list \<Rightarrow> (locals \<times> nat list \<times> nat list) res option"
where
  "stepE_for w xd iter st nodePool workList =
     (case nonBackPreds st xd of
        None \<Rightarrow> Some (Inl TypeError)
      | Some l \<Rightarrow>
          if iter < length l then
            (case arrayIndex (l ! iter) of
               None \<Rightarrow> Some (Inl TypeError)
             | Some y \<Rightarrow>
                 (case findSet (nodes st) y of
                    Inl e \<Rightarrow> Some (Inl e)
                  | Inr (ydash, ns) \<Rightarrow>
                      (case ns ydash of
                         None \<Rightarrow> Some (Inl TypeError)
                       | Some yn \<Rightarrow>
                           if \<not> isAncestor w (Some (int (dfsNumber yn))) (last' st) then
                             (case nonBackPreds st w of
                                None \<Rightarrow> Some (Inl TypeError)
                              | Some lw \<Rightarrow>
                                  stepE_for w xd (iter + 1)
                                    (st\<lparr>nodes := ns, types := (types st)(w \<mapsto> BB_IRREDUCIBLE),
                                        nonBackPreds :=
                                          (nonBackPreds st)(w \<mapsto> lw @ [Some (int (dfsNumber yn))])\<rparr>)
                                    nodePool workList)
                           else if dfsNumber yn \<noteq> w \<and> ydash \<notin> set nodePool then
                             stepE_for w xd (iter + 1) (st\<lparr>nodes := ns\<rparr>)
                               (nodePool @ [ydash]) (workList @ [ydash])
                           else stepE_for w xd (iter + 1) (st\<lparr>nodes := ns\<rparr>) nodePool workList)))
          else Some (Inr (st, nodePool, workList)))"

declare stepE_for.simps [code]

partial_function (option) workList_while ::
  "nat \<Rightarrow> locals \<Rightarrow> nat list \<Rightarrow> nat list \<Rightarrow> (locals \<times> nat list) ctl res option"
where
  "workList_while w st nodePool workList =
     (if length workList > 0 then
        (case nodes st (hd workList) of
           None \<Rightarrow> Some (Inl TypeError)
         | Some xn \<Rightarrow>
             (case nonBackPreds st (dfsNumber xn) of
                None \<Rightarrow> Some (Inl TypeError)
              | Some l \<Rightarrow>
                  if length l > MAXNONBACKPREDS then Some (Inr Return0)
                  else
                    (case stepE_for w (dfsNumber xn) 0 st nodePool (tl workList) of
                       None \<Rightarrow> None
                     | Some (Inl e) \<Rightarrow> Some (Inl e)
                     | Some (Inr (st1, nodePool1, workList1)) \<Rightarrow>
                         workList_while w st1 nodePool1 workList1)))
      else Some (Inr (Next (st, nodePool))))"

declare workList_while.simps [code]

text \<open>
  The loop over the node pool that follows the creation of a loop: every node of the
  pool is united with \<open>nodes[w]\<close>; its loop, when it has one, becomes a child of the
  new loop, and its block a member of the new loop otherwise.
\<close>

fun collapse :: "nat \<Rightarrow> lref \<Rightarrow> nat list \<Rightarrow> locals \<times> LSG \<Rightarrow> (locals \<times> LSG) res" where
  "collapse w loop' [] (st, g) = Inr (st, g)"
| "collapse w loop' (node # rest) (st, g) =
     (case nodes st node of
        None \<Rightarrow> Inl TypeError
      | Some n \<Rightarrow>
          (let st1 = st\<lparr>header' := (header' st)(dfsNumber n \<mapsto> w),
                        nodes := union (nodes st) node w\<rparr>
           in case loop n of
                Some nl \<Rightarrow> collapse w loop' rest (st1, g\<lparr>objs := setParent (objs g) nl loop'\<rparr>)
              | None \<Rightarrow> collapse w loop' rest (st1, g\<lparr>objs := addNode (objs g) loop' (bb n)\<rparr>)))"

definition newLoop :: "nat \<Rightarrow> ref \<Rightarrow> nat list \<Rightarrow> locals \<times> LSG \<Rightarrow> (locals \<times> LSG) res" where
  "newLoop w nodeW nodePool stg =
     (case stg of (st, g) \<Rightarrow>
        (let (loop', g1) = createNewLoop g;
             g2 = g1\<lparr>objs := setHeader (objs g1) loop' nodeW\<rparr>;
             g3 = g2\<lparr>objs := modify (objs g2) loop'
                     (\<lambda>l. l\<lparr>isReducible := (types st w = Some BB_IRREDUCIBLE)\<rparr>)\<rparr>
         in case nodes st w of
              None \<Rightarrow> Inl TypeError
            | Some nw \<Rightarrow>
                (case collapse w loop' nodePool (st\<lparr>nodes := (nodes st)(w \<mapsto> nw\<lparr>loop := Some loop'\<rparr>)\<rparr>, g3) of
                   Inl e \<Rightarrow> Inl e
                 | Inr (st1, g4) \<Rightarrow> Inr (st1, addLoop g4 loop'))))"

definition stepC_body :: "nat \<Rightarrow> locals \<times> LSG \<Rightarrow> (locals \<times> LSG) ctl res option" where
  "stepC_body w stg =
     (case stg of (st, g) \<Rightarrow>
        (case nodes st w of
           None \<Rightarrow> Some (Inl TypeError)
         | Some nw \<Rightarrow>
             (case bb nw of
                None \<Rightarrow> Some (Inr (Next (st, g)))
              | Some nodeW \<Rightarrow>
                  (case backPreds st w of
                     None \<Rightarrow> Some (Inl TypeError)
                   | Some bp \<Rightarrow>
                       (case stepD w bp st [] of
                          Inl e \<Rightarrow> Some (Inl e)
                        | Inr (st1, nodePool) \<Rightarrow>
                            (let st2 = (if length nodePool \<noteq> 0
                                        then st1\<lparr>types := (types st1)(w \<mapsto> BB_REDUCIBLE)\<rparr>
                                        else st1)
                             in case workList_while w st2 nodePool nodePool of
                                  None \<Rightarrow> None
                                | Some (Inl e) \<Rightarrow> Some (Inl e)
                                | Some (Inr Return0) \<Rightarrow> Some (Inr Return0)
                                | Some (Inr (Next (st3, nodePool3))) \<Rightarrow>
                                    if length nodePool3 > 0 \<or> types st3 w = Some BB_SELF then
                                      (case newLoop w nodeW nodePool3 (st3, g) of
                                         Inl e \<Rightarrow> Some (Inl e)
                                       | Inr stg1 \<Rightarrow> Some (Inr (Next stg1)))
                                    else Some (Inr (Next (st3, g)))))))))"

text \<open>
  The header loop, over the values of \<open>w\<close> in the order given, with the two
  \<open>return\<close> statements of \<open>findLoops\<close> that can follow its start: \<open>return 0\<close> from
  inside the loop, and the number of loops of the forest after it.
\<close>

fun stepC :: "nat list \<Rightarrow> locals \<times> LSG \<Rightarrow> (nat \<times> LSG) res option" where
  "stepC [] stg = Some (Inr (getNumLoops (snd stg), snd stg))"
| "stepC (w # ws) stg =
     (case stepC_body w stg of
        None \<Rightarrow> None
      | Some (Inl e) \<Rightarrow> Some (Inl e)
      | Some (Inr Return0) \<Rightarrow> Some (Inr (0, snd stg))
      | Some (Inr (Next stg1)) \<Rightarrow> stepC ws stg1)"

subsection \<open>findLoops\<close>

text \<open>
  Steps a and b: the arrays after the traversal from the start node and the
  classification of the edges.
\<close>

definition stepsAB :: "nat BasicBlock list \<Rightarrow> ref \<Rightarrow> nat \<Rightarrow> locals res" where
  "stepsAB bs start size' =
     (let st = initLocals size' in
      case DFS bs start (nodes st, numbers st, last' st) 0 of
        Inl e \<Rightarrow> Inl e
      | Inr ((ns, nums, la), lastid) \<Rightarrow>
          stepB bs [0..<size'] (st\<lparr>nodes := ns, numbers := nums, last' := la\<rparr>))"

text \<open>
  \<open>findLoops\<close> returns a number and leaves its loops in the forest it was constructed
  with. The header loop runs \<open>w\<close> from \<open>size - 1\<close> down to 0.
\<close>

definition findLoops :: "nat BasicBlock list \<Rightarrow> CFG \<Rightarrow> LSG \<Rightarrow> (nat \<times> LSG) res option" where
  "findLoops bs cfg g =
     (case startNode cfg of
        None \<Rightarrow> Some (Inr (0, g))
      | Some start \<Rightarrow>
          (case stepsAB bs start (getNumNodes cfg) of
             Inl e \<Rightarrow> Some (Inl e)
           | Inr st \<Rightarrow> stepC (rev [0..<getNumNodes cfg]) (st, g)))"

section \<open>Building graphs\<close>

text \<open>
  A driver builds a graph by a sequence of calls: \<open>createNode(name, id)\<close>, and the
  construction of an edge between the blocks that the graph holds under two ids. The
  analysis of a graph starts from a forest as its constructor leaves it.
\<close>

datatype 'n call = CreateNode 'n int | NewEdge int int

fun run_call :: "'n world \<times> CFG \<Rightarrow> 'n call \<Rightarrow> ('n world \<times> CFG) res" where
  "run_call (wd, cfg) (CreateNode nm i) =
     (case createNode wd cfg nm i of (node, wd1, cfg1) \<Rightarrow> Inr (wd1, cfg1))"
| "run_call (wd, cfg) (NewEdge i j) =
     (case map_of (basicBlockMap cfg) i of
        None \<Rightarrow> Inl TypeError
      | Some a \<Rightarrow>
          (case map_of (basicBlockMap cfg) j of
             None \<Rightarrow> Inl TypeError
           | Some b \<Rightarrow> new_BasicBlockEdge wd cfg a b))"

fun build :: "'n world \<times> CFG \<Rightarrow> 'n call list \<Rightarrow> ('n world \<times> CFG) res" where
  "build s [] = Inr s"
| "build s (c # cs) = (case run_call s c of Inl e \<Rightarrow> Inl e | Inr s1 \<Rightarrow> build s1 cs)"

definition new_world :: "'n world" where
  "new_world = \<lparr>blocks = [], numBasicBlocks = 0\<rparr>"

subsection \<open>The graph of one block with an edge to itself\<close>

definition selfLoop_blocks :: "nat BasicBlock list" where
  "selfLoop_blocks = [\<lparr>name = 0, id' = 0, inEdges = [0], outEdges = [0]\<rparr>]"

definition selfLoop_cfg :: CFG where
  "selfLoop_cfg = \<lparr>basicBlockMap = [(0, 0)], edgeList = [(0, 0)], startNode = Some 0\<rparr>"

definition selfLoop_forest :: LSG where
  "selfLoop_forest =
     \<lparr>loopCounter = 2, loops = [0, 1], root = 0,
      objs = [\<lparr>basicBlocks = [], children = [], counter = 0, parent = None, header = None,
               isRoot = True, isReducible = True, nestingLevel = 0, depthLevel = 0\<rparr>,
              \<lparr>basicBlocks = [Some 0], children = [], counter = 1, parent = None,
               header = Some 0, isRoot = False, isReducible = False, nestingLevel = 0,
               depthLevel = 0\<rparr>]\<rparr>"

section \<open>The checksum in the words of the specification\<close>

text \<open>
  The results of a list of calls, in order: the first call that does not return or
  raises decides.
\<close>

fun collect :: "'a res option list \<Rightarrow> 'a list res option" where
  "collect [] = Some (Inr [])"
| "collect (x # xs) =
     (case x of
        None \<Rightarrow> None
      | Some (Inl e) \<Rightarrow> Some (Inl e)
      | Some (Inr v) \<Rightarrow>
          (case collect xs of
             None \<Rightarrow> None
           | Some (Inl e) \<Rightarrow> Some (Inl e)
           | Some (Inr vs) \<Rightarrow> Some (Inr (v # vs))))"

text \<open>
  The forest's checksum as the specification words it, for a given order of the loops:
  the accumulator starts at the number of loops, and the checksum of each loop of the
  order is mixed in.
\<close>

definition mixInOrder :: "nat BasicBlock list \<Rightarrow> LSG \<Rightarrow> lref list \<Rightarrow> int res option" where
  "mixInOrder bs g order =
     (case collect (map (loopChecksum bs (objs g)) order) of
        None \<Rightarrow> None
      | Some (Inl e) \<Rightarrow> Some (Inl e)
      | Some (Inr cs) \<Rightarrow> Some (Inr (foldl mix (int (length (loops g))) cs)))"

text \<open>
  The checksum of one loop as the specification words it: what is mixed in for a block
  is its integer \<open>id\<close>.
\<close>

fun blockIds :: "'n BasicBlock list \<Rightarrow> ref option list \<Rightarrow> int list res" where
  "blockIds bs [] = Inr []"
| "blockIds bs (e # es) =
     (case e of
        None \<Rightarrow> Inl TypeError
      | Some r \<Rightarrow>
          (case deref bs r of
             None \<Rightarrow> Inl TypeError
           | Some b \<Rightarrow>
               (case blockIds bs es of Inl x \<Rightarrow> Inl x | Inr ids \<Rightarrow> Inr (id' b # ids))))"

fun checksum_spec :: "nat \<Rightarrow> 'n BasicBlock list \<Rightarrow> SimpleLoop list \<Rightarrow> lref \<Rightarrow> int res option" where
  "checksum_spec 0 bs ls this = None"
| "checksum_spec (Suc fuel) bs ls this =
     (case deref ls this of
        None \<Rightarrow> Some (Inl TypeError)
      | Some l \<Rightarrow>
          (case blockIds bs ((case header l of None \<Rightarrow> [] | Some h \<Rightarrow> [Some h]) @ basicBlocks l) of
             Inl e \<Rightarrow> Some (Inl e)
           | Inr ids \<Rightarrow>
               (case collect (map (checksum_spec fuel bs ls) (children l)) of
                  None \<Rightarrow> None
                | Some (Inl e) \<Rightarrow> Some (Inl e)
                | Some (Inr cs) \<Rightarrow>
                    Some (Inr (foldl mix (counter l)
                      ([if isRoot l then 1 else 0, if isReducible l then 1 else 0,
                        nestingLevel l, depthLevel l] @ ids @ cs))))))"


subsection \<open>The self loop on a block whose id is not its name\<close>

definition id7_blocks :: "nat BasicBlock list" where
  "id7_blocks = [\<lparr>name = 0, id' = 7, inEdges = [0], outEdges = [0]\<rparr>]"

definition id7_cfg :: CFG where
  "id7_cfg = \<lparr>basicBlockMap = [(7, 0)], edgeList = [(0, 0)], startNode = Some 0\<rparr>"


section \<open>The store of loops only grows\<close>

lemma length_modify: "length (modify s r f) = length s"
  by (simp add: modify_def)

lemma nth_modify: "i < length s \<Longrightarrow> modify s r f ! i = (if i = r then f (s ! i) else s ! i)"
  by (simp add: modify_def)

definition loop_grows :: "SimpleLoop \<Rightarrow> SimpleLoop \<Rightarrow> bool" where
  "loop_grows l l2 =
     (header l2 = header l \<and> counter l2 = counter l \<and> isRoot l2 = isRoot l \<and>
      isReducible l2 = isReducible l \<and> nestingLevel l2 = nestingLevel l \<and>
      depthLevel l2 = depthLevel l \<and>
      (\<exists>ms. basicBlocks l2 = basicBlocks l @ ms) \<and> (\<exists>cs. children l2 = children l @ cs))"

definition store_grows :: "SimpleLoop list \<Rightarrow> SimpleLoop list \<Rightarrow> bool" where
  "store_grows ls ls2 = (length ls2 = length ls \<and> (\<forall>i<length ls. loop_grows (ls ! i) (ls2 ! i)))"

lemma loop_grows_refl: "loop_grows l l"
  by (simp add: loop_grows_def)

lemma loop_grows_trans: "loop_grows a b \<Longrightarrow> loop_grows b c \<Longrightarrow> loop_grows a c"
  by (auto simp: loop_grows_def)

lemma store_grows_refl: "store_grows ls ls"
  by (simp add: store_grows_def loop_grows_refl)

lemma store_grows_trans: "store_grows a b \<Longrightarrow> store_grows b c \<Longrightarrow> store_grows a c"
  unfolding store_grows_def by (metis loop_grows_trans)

lemma store_grows_modify:
  assumes "\<And>l. loop_grows l (f l)"
  shows "store_grows ls (modify ls r f)"
  using assms by (simp add: store_grows_def length_modify nth_modify loop_grows_refl)

lemma store_grows_addNode: "store_grows ls (addNode ls l b)"
  unfolding addNode_def by (rule store_grows_modify) (simp add: loop_grows_def)

lemma store_grows_addChildLoop: "store_grows ls (addChildLoop ls l c)"
  unfolding addChildLoop_def by (rule store_grows_modify) (simp add: loop_grows_def)

lemma store_grows_setParent: "store_grows ls (setParent ls l p)"
  unfolding setParent_def
  by (rule store_grows_trans [OF store_grows_modify store_grows_addChildLoop])
     (simp add: loop_grows_def)

lemma collapse_grows:
  "collapse w l pool (st, g) = Inr (st2, g2) \<Longrightarrow>
     store_grows (objs g) (objs g2) \<and> loops g2 = loops g \<and> root g2 = root g \<and>
     loopCounter g2 = loopCounter g"
proof (induction pool arbitrary: st g)
  case Nil
  then show ?case by (simp add: store_grows_refl)
next
  case (Cons node rest)
  from Cons.prems obtain n where n: "nodes st node = Some n"
    by (auto split: option.splits)
  let ?st1 = "st\<lparr>header' := (header' st)(dfsNumber n \<mapsto> w), nodes := union (nodes st) node w\<rparr>"
  show ?case
  proof (cases "loop n")
    case None
    with Cons.prems n have
      "collapse w l rest (?st1, g\<lparr>objs := addNode (objs g) l (bb n)\<rparr>) = Inr (st2, g2)"
      by (simp add: Let_def)
    from Cons.IH [OF this] show ?thesis
      using store_grows_addNode [of "objs g" l "bb n"] by (auto intro: store_grows_trans)
  next
    case (Some nl)
    with Cons.prems n have
      "collapse w l rest (?st1, g\<lparr>objs := setParent (objs g) nl l\<rparr>) = Inr (st2, g2)"
      by (simp add: Let_def)
    from Cons.IH [OF this] show ?thesis
      using store_grows_setParent [of "objs g" nl l] by (auto intro: store_grows_trans)
  qed
qed

text \<open>What \<open>newLoop\<close> leaves: the old loops, grown, and one more loop.\<close>

definition one_more_loop :: "LSG \<Rightarrow> LSG \<Rightarrow> bool" where
  "one_more_loop g g2 =
     (length (objs g2) = Suc (length (objs g)) \<and>
      store_grows (objs g) (take (length (objs g)) (objs g2)) \<and>
      loops g2 = loops g @ [length (objs g)] \<and> root g2 = root g \<and>
      loopCounter g2 = loopCounter g + 1 \<and>
      counter (objs g2 ! length (objs g)) = loopCounter g \<and>
      \<not> isRoot (objs g2 ! length (objs g)) \<and>
      (\<exists>h rest. header (objs g2 ! length (objs g)) = Some h \<and>
                 basicBlocks (objs g2 ! length (objs g)) = Some h # rest))"

lemma newLoop_one_more:
  assumes "newLoop w nodeW pool (st, g) = Inr (st2, g2)"
  shows "one_more_loop g g2"
proof -
  let ?n = "length (objs g)"
  let ?l0 = "(new_SimpleLoop (loopCounter g))\<lparr>basicBlocks := [Some nodeW], header := Some nodeW,
               isReducible := (types st w = Some BB_IRREDUCIBLE)\<rparr>"
  let ?g3 = "g\<lparr>loopCounter := loopCounter g + 1, objs := objs g @ [?l0]\<rparr>"
  from assms obtain nw st1 g4 where
    c: "collapse w ?n pool (st\<lparr>nodes := (nodes st)(w \<mapsto> nw\<lparr>loop := Some ?n\<rparr>)\<rparr>, ?g3) = Inr (st1, g4)"
    and g2: "g2 = addLoop g4 ?n"
    by (auto simp: newLoop_def createNewLoop_def setHeader_def modify_def new_SimpleLoop_def
             Let_def split: option.splits sum.splits)
  from collapse_grows [OF c] have
    sg: "store_grows (objs ?g3) (objs g4)" and l: "loops g4 = loops g" and r: "root g4 = root g"
    and lc: "loopCounter g4 = loopCounter g + 1"
    by simp_all
  from sg have len: "length (objs g4) = Suc ?n" by (simp add: store_grows_def)
  from sg have new: "loop_grows ?l0 (objs g4 ! ?n)"
    by (auto simp: store_grows_def dest: spec [of _ ?n])
  have old: "store_grows (objs g) (take ?n (objs g4))"
    unfolding store_grows_def
  proof (intro conjI allI impI)
    show "length (take ?n (objs g4)) = ?n" using len by simp
    fix i assume i: "i < ?n"
    with sg have "loop_grows ((objs g @ [?l0]) ! i) (objs g4 ! i)"
      by (simp add: store_grows_def)
    with i show "loop_grows (objs g ! i) (take ?n (objs g4) ! i)"
      by (simp add: nth_append)
  qed
  from new have "\<exists>h rest. header (objs g4 ! ?n) = Some h \<and> basicBlocks (objs g4 ! ?n) = Some h # rest"
    by (auto simp: loop_grows_def)
  moreover from new have "counter (objs g4 ! ?n) = loopCounter g" "\<not> isRoot (objs g4 ! ?n)"
    by (simp_all add: loop_grows_def new_SimpleLoop_def)
  ultimately show ?thesis
    using len old l r lc g2 by (simp add: one_more_loop_def addLoop_def)
qed

definition forest_from :: "LSG \<Rightarrow> LSG \<Rightarrow> bool" where
  "forest_from g0 g =
     (length (objs g0) \<le> length (objs g) \<and>
      store_grows (objs g0) (take (length (objs g0)) (objs g)) \<and>
      root g = root g0 \<and>
      loops g = loops g0 @ [length (objs g0)..<length (objs g)] \<and>
      (\<forall>l. length (objs g0) \<le> l \<and> l < length (objs g) \<longrightarrow>
         counter (objs g ! l) = loopCounter g0 + int (l - length (objs g0)) \<and>
         \<not> isRoot (objs g ! l) \<and>
         (\<exists>h rest. header (objs g ! l) = Some h \<and> basicBlocks (objs g ! l) = Some h # rest)) \<and>
      loopCounter g = loopCounter g0 + int (length (objs g) - length (objs g0)))"

lemma forest_from_refl: "forest_from g g"
  by (auto simp: forest_from_def store_grows_refl)

lemma store_grows_take:
  assumes "store_grows a (take (length a) b)" and "store_grows b (take (length b) c)"
    and "length a \<le> length b"
  shows "store_grows a (take (length a) c)"
  unfolding store_grows_def
proof (intro conjI allI impI)
  from assms(2) have lc: "length b \<le> length c" by (auto simp: store_grows_def)
  with assms(3) show "length (take (length a) c) = length a" by simp
  fix i assume i: "i < length a"
  with assms(1) have 1: "loop_grows (a ! i) (b ! i)" by (simp add: store_grows_def)
  from i assms(3) assms(2) have "loop_grows (b ! i) (c ! i)" by (simp add: store_grows_def)
  with 1 i show "loop_grows (a ! i) (take (length a) c ! i)"
    by (auto intro: loop_grows_trans)
qed

lemma forest_from_step:
  assumes f: "forest_from g0 g" and o: "one_more_loop g g2"
  shows "forest_from g0 g2"
proof -
  let ?m = "length (objs g0)" and ?n = "length (objs g)"
  from f have le: "?m \<le> ?n" by (simp add: forest_from_def)
  from o have len: "length (objs g2) = Suc ?n" by (simp add: one_more_loop_def)
  from o have sg: "store_grows (objs g) (take ?n (objs g2))" by (simp add: one_more_loop_def)
  from f have sg0: "store_grows (objs g0) (take ?m (objs g))" by (simp add: forest_from_def)
  have 1: "store_grows (objs g0) (take ?m (objs g2))"
    using store_grows_take [OF sg0 sg le] .
  have 2: "loops g2 = loops g0 @ [?m..<length (objs g2)]"
    using f o le by (simp add: forest_from_def one_more_loop_def len)
  have 3: "loopCounter g2 = loopCounter g0 + int (length (objs g2) - ?m)"
    using f o le by (simp add: forest_from_def one_more_loop_def len Suc_diff_le)
  have 4: "counter (objs g2 ! l) = loopCounter g0 + int (l - ?m) \<and> \<not> isRoot (objs g2 ! l) \<and>
           (\<exists>h rest. header (objs g2 ! l) = Some h \<and> basicBlocks (objs g2 ! l) = Some h # rest)"
    if l: "?m \<le> l" "l < length (objs g2)" for l
  proof (cases "l = ?n")
    case True
    with o f show ?thesis by (simp add: one_more_loop_def forest_from_def)
  next
    case False
    with l len have ln: "l < ?n" by simp
    with sg have lg: "loop_grows (objs g ! l) (objs g2 ! l)" by (simp add: store_grows_def)
    from f l ln have "counter (objs g ! l) = loopCounter g0 + int (l - ?m) \<and> \<not> isRoot (objs g ! l) \<and>
           (\<exists>h rest. header (objs g ! l) = Some h \<and> basicBlocks (objs g ! l) = Some h # rest)"
      by (simp add: forest_from_def)
    with lg show ?thesis by (auto simp: loop_grows_def)
  qed
  from f o have 5: "root g2 = root g0" by (simp add: forest_from_def one_more_loop_def)
  from le len have 6: "?m \<le> length (objs g2)" by simp
  from 1 2 3 4 5 6 show ?thesis unfolding forest_from_def by blast
qed

lemma stepC_body_forest:
  assumes "stepC_body w (st, g) = Some (Inr (Next (st2, g2)))"
  shows "g2 = g \<or> one_more_loop g g2"
  using assms
  by (auto simp: stepC_body_def Let_def split: option.splits sum.splits ctl.splits if_splits
           dest!: newLoop_one_more)

lemma stepC_body_forest_from:
  assumes "stepC_body w (st, g) = Some (Inr (Next (st2, g2)))" and "forest_from g0 g"
  shows "forest_from g0 g2"
  using stepC_body_forest [OF assms(1)] assms(2) by (auto intro: forest_from_step)

lemma stepC_forest_from:
  "stepC ws (st, g) = Some (Inr (n, g2)) \<Longrightarrow> forest_from g0 g \<Longrightarrow> forest_from g0 g2"
proof (induction ws arbitrary: st g)
  case Nil
  then show ?case by simp
next
  case (Cons w ws)
  show ?case
  proof (cases "stepC_body w (st, g)")
    case None
    with Cons.prems show ?thesis by simp
  next
    case (Some r)
    show ?thesis
    proof (cases r)
      case (Inl e)
      with Some Cons.prems show ?thesis by simp
    next
      case (Inr c)
      show ?thesis
      proof (cases c)
        case Return0
        with Some Inr Cons.prems show ?thesis by simp
      next
        case (Next stg1)
        obtain st1 g1 where stg1: "stg1 = (st1, g1)" by (cases stg1)
        from Some Inr Next stg1 Cons.prems(2) have "forest_from g0 g1"
          by (auto intro: stepC_body_forest_from)
        moreover from Some Inr Next stg1 Cons.prems(1) have "stepC ws (st1, g1) = Some (Inr (n, g2))"
          by simp
        ultimately show ?thesis by (rule Cons.IH [rotated])
      qed
    qed
  qed
qed

lemma findLoops_forest_from:
  assumes "findLoops bs cfg g0 = Some (Inr (n, g))"
  shows "forest_from g0 g"
proof (cases "startNode cfg")
  case None
  with assms show ?thesis by (simp add: findLoops_def forest_from_refl)
next
  case (Some start)
  with assms obtain st where "stepC (rev [0..<getNumNodes cfg]) (st, g0) = Some (Inr (n, g))"
    by (auto simp: findLoops_def split: sum.splits)
  then show ?thesis by (rule stepC_forest_from) (rule forest_from_refl)
qed

section \<open>Checksums\<close>

lemma collect_append:
  "collect (xs @ ys) =
     (case collect xs of
        None \<Rightarrow> None
      | Some (Inl e) \<Rightarrow> Some (Inl e)
      | Some (Inr vs) \<Rightarrow>
          (case collect ys of
             None \<Rightarrow> None
           | Some (Inl e) \<Rightarrow> Some (Inl e)
           | Some (Inr ws) \<Rightarrow> Some (Inr (vs @ ws))))"
  by (induction xs) (auto split: option.splits sum.splits)

lemma mixChildren_collect:
  "mixChildren fuel bs ls es acc =
     (case collect (map (checksum fuel bs ls) es) of
        None \<Rightarrow> None
      | Some (Inl e) \<Rightarrow> Some (Inl e)
      | Some (Inr cs) \<Rightarrow> Some (Inr (foldl mix acc cs)))"
  by (induction es arbitrary: acc) (auto split: option.splits sum.splits)

lemma loopChecksum_fun: "checksum (Suc (length ls)) bs ls = loopChecksum bs ls"
  by (rule ext) (simp only: loopChecksum_def)

lemma LSG_checksum_in_order: "LSG_checksum bs g = mixInOrder bs g (loops g @ [root g])"
  unfolding LSG_checksum_def mixInOrder_def mixChildren_collect loopChecksum_fun
  by (simp add: collect_append split: option.splits sum.splits)

lemma mixNames_blockIds:
  assumes "\<And>r b. deref bs r = Some b \<Longrightarrow> id' b = int (name b)"
  shows "mixNames bs es acc =
     (case blockIds bs es of Inl e \<Rightarrow> Inl e | Inr ids \<Rightarrow> Inr (foldl mix acc ids))"
  using assms by (induction es arbitrary: acc) (auto split: option.splits sum.splits)

lemma blockIds_append:
  "blockIds bs (xs @ ys) =
     (case blockIds bs xs of
        Inl e \<Rightarrow> Inl e
      | Inr is \<Rightarrow> (case blockIds bs ys of Inl e \<Rightarrow> Inl e | Inr js \<Rightarrow> Inr (is @ js)))"
  by (induction xs) (auto split: option.splits sum.splits)

lemma checksum_is_checksum_spec:
  assumes "\<And>r b. deref bs r = Some b \<Longrightarrow> id' b = int (name b)"
  shows "checksum fuel bs ls this = checksum_spec fuel bs ls this"
proof (induction fuel arbitrary: this)
  case 0
  show ?case by simp
next
  case (Suc fuel)
  have m: "map (checksum fuel bs ls) es = map (checksum_spec fuel bs ls) es" for es
    using Suc.IH by simp
  show ?case
  proof (cases "deref ls this")
    case None
    then show ?thesis by simp
  next
    case (Some l)
    show ?thesis
    proof (cases "header l")
      case None
      with Some show ?thesis
        by (simp add: Let_def mixNames_blockIds [OF assms] mixChildren_collect m
            split: sum.splits option.splits)
    next
      case h: (Some h)
      show ?thesis
      proof (cases "deref bs h")
        case None
        with Some h show ?thesis by simp
      next
        case b: (Some b)
        from assms [OF b] have "id' b = int (name b)" .
        with Some h b show ?thesis
          by (simp add: Let_def mixNames_blockIds [OF assms] mixChildren_collect m
              split: sum.splits option.splits)
      qed
    qed
  qed
qed

section \<open>The reducibility flag of a new loop\<close>

lemma build_selfLoop:
  "build (new_world, new_CFG) [CreateNode (0::nat) 0, NewEdge 0 0]
     = Inr (\<lparr>blocks = selfLoop_blocks, numBasicBlocks = 1\<rparr>, selfLoop_cfg)"
  by code_simp

lemma findLoops_selfLoop:
  "findLoops selfLoop_blocks selfLoop_cfg new_LSG = Some (Inr (2, selfLoop_forest))"
  by code_simp

text \<open>
  C1. On the graph whose start block \<open>A\<close> has the single edge \<open>A \<rightarrow> A\<close>,
  \<open>findLoops\<close> returns 2 and the forest holds, after the root, one loop with header
  \<open>A\<close> and the members \<open>[A]\<close>. The header is classified a self loop, not irreducible,
  and the loop's \<open>isReducible\<close> is false: the flag is set to true exactly for a header
  classified irreducible.
\<close>

theorem selfLoop_isReducible_false:
  "build (new_world, new_CFG) [CreateNode (0::nat) 0, NewEdge 0 0]
     = Inr (\<lparr>blocks = selfLoop_blocks, numBasicBlocks = 1\<rparr>, selfLoop_cfg)
   \<and> findLoops selfLoop_blocks selfLoop_cfg new_LSG = Some (Inr (2, selfLoop_forest))
   \<and> loops selfLoop_forest = [root selfLoop_forest, 1]
   \<and> header (objs selfLoop_forest ! 1) = Some 0
   \<and> basicBlocks (objs selfLoop_forest ! 1) = [Some 0]
   \<and> isReducible (objs selfLoop_forest ! 1) = False"
proof -
  have "loops selfLoop_forest = [root selfLoop_forest, 1]"
    and "header (objs selfLoop_forest ! 1) = Some 0"
    and "basicBlocks (objs selfLoop_forest ! 1) = [Some 0]"
    and "isReducible (objs selfLoop_forest ! 1) = False"
    by (simp_all add: selfLoop_forest_def)
  with build_selfLoop findLoops_selfLoop show ?thesis by blast
qed

section \<open>The checksum of one loop\<close>

lemma build_id7:
  "build (new_world, new_CFG) [CreateNode (0::nat) 7, NewEdge 7 7]
     = Inr (\<lparr>blocks = id7_blocks, numBasicBlocks = 1\<rparr>, id7_cfg)"
  by code_simp

lemma findLoops_id7: "findLoops id7_blocks id7_cfg new_LSG = Some (Inr (2, selfLoop_forest))"
  by code_simp

lemma loopChecksum_id7: "loopChecksum id7_blocks (objs selfLoop_forest) 1 = Some (Inr 64)"
  by code_simp

lemma checksum_spec_id7: "checksum_spec 3 id7_blocks (objs selfLoop_forest) 1 = Some (Inr 85)"
  by code_simp

text \<open>
  C2. The checksum of a loop starts at the loop's serial id and mixes in, in this
  order, \<open>isRoot\<close>, \<open>isReducible\<close>, the two levels, the header block, the member
  blocks and the checksums of the children. What \<open>SimpleLoop.checksum\<close> mixes in for
  a block is the block's \<open>name\<close>, not its \<open>id\<close>: for the block created by
  \<open>createNode(0, 7)\<close> with an edge to itself, the loop found has the checksum 64, with
  the name 0 mixed in twice, where the procedure of the specification, with the id 7
  mixed in twice, gives 85.
\<close>

theorem checksum_mixes_name_not_id:
  "build (new_world, new_CFG) [CreateNode (0::nat) 7, NewEdge 7 7]
     = Inr (\<lparr>blocks = id7_blocks, numBasicBlocks = 1\<rparr>, id7_cfg)
   \<and> findLoops id7_blocks id7_cfg new_LSG = Some (Inr (2, selfLoop_forest))
   \<and> loopChecksum id7_blocks (objs selfLoop_forest) 1 = Some (Inr 64)
   \<and> checksum_spec 3 id7_blocks (objs selfLoop_forest) 1 = Some (Inr 85)"
  using build_id7 findLoops_id7 loopChecksum_id7 checksum_spec_id7 by blast

section \<open>The checksum of the forest\<close>

lemma LSG_checksum_selfLoop: "LSG_checksum selfLoop_blocks selfLoop_forest = Some (Inr 204)"
  by code_simp

lemma mixInOrder_selfLoop_root_last:
  "mixInOrder selfLoop_blocks selfLoop_forest [1, root selfLoop_forest, root selfLoop_forest]
     = Some (Inr 308)"
  by code_simp

text \<open>
  C3, as the claim states it, fails on the forest of the self-loop graph: the root is
  the first loop of the stored order, not the last, and the checksum of the forest is
  204, where mixing in the found loop first and the root last, and then the root once
  more, gives 308.
\<close>

theorem forest_checksum_root_last_counterexample:
  "findLoops selfLoop_blocks selfLoop_cfg new_LSG = Some (Inr (2, selfLoop_forest))
   \<and> loops selfLoop_forest = [root selfLoop_forest, 1]
   \<and> LSG_checksum selfLoop_blocks selfLoop_forest = Some (Inr 204)
   \<and> mixInOrder selfLoop_blocks selfLoop_forest [1, root selfLoop_forest, root selfLoop_forest]
       = Some (Inr 308)"
proof -
  have "loops selfLoop_forest = [root selfLoop_forest, 1]"
    by (simp add: selfLoop_forest_def)
  with findLoops_selfLoop LSG_checksum_selfLoop mixInOrder_selfLoop_root_last
  show ?thesis by blast
qed

text \<open>
  C3, amended. In the forest that \<open>findLoops\<close> leaves when it starts from a new
  forest, the stored order of the loops has the root first, followed by the loops found
  in the order of their creation, which is the order of their serial ids. The checksum
  of the forest starts at the number of loops, mixes in the checksum of each loop in
  that order, and mixes in the checksum of the root once more.
\<close>

theorem forest_checksum_root_first:
  assumes "findLoops bs cfg new_LSG = Some (Inr (n, g))"
  shows "root g = 0 \<and> loops g = root g # [1..<length (objs g)]
     \<and> (\<forall>l\<in>set [1..<length (objs g)]. counter (objs g ! l) = int l)
     \<and> LSG_checksum bs g = mixInOrder bs g (root g # [1..<length (objs g)] @ [root g])"
proof -
  from findLoops_forest_from [OF assms] have f: "forest_from new_LSG g" .
  then have r: "root g = 0" and l: "loops g = 0 # [1..<length (objs g)]"
    by (simp_all add: forest_from_def new_LSG_def)
  from f have "counter (objs g ! l) = int l" if "1 \<le> l" "l < length (objs g)" for l
    using that by (auto simp: forest_from_def new_LSG_def)
  with r l LSG_checksum_in_order [of bs g] show ?thesis by simp
qed

theorem forest_checksum_root_first_witness:
  "root selfLoop_forest = 0 \<and> loops selfLoop_forest = [root selfLoop_forest, 1]
   \<and> counter (objs selfLoop_forest ! 1) = 1
   \<and> LSG_checksum selfLoop_blocks selfLoop_forest
       = mixInOrder selfLoop_blocks selfLoop_forest [root selfLoop_forest, 1, root selfLoop_forest]"
  using forest_checksum_root_first [OF findLoops_selfLoop]
  by (simp add: selfLoop_forest_def)

section \<open>The header of a loop is its first member\<close>

text \<open>
  A start block 0 with an edge to the block 1, which has an edge to itself: the loop
  found has the header 1.
\<close>

definition tail_blocks :: "nat BasicBlock list" where
  "tail_blocks = [\<lparr>name = 0, id' = 0, inEdges = [], outEdges = [1]\<rparr>,
                  \<lparr>name = 1, id' = 1, inEdges = [0, 1], outEdges = [1]\<rparr>]"

definition tail_cfg :: CFG where
  "tail_cfg = \<lparr>basicBlockMap = [(0, 0), (1, 1)], edgeList = [(0, 1), (1, 1)], startNode = Some 0\<rparr>"

definition tail_forest :: LSG where
  "tail_forest =
     \<lparr>loopCounter = 2, loops = [0, 1], root = 0,
      objs = [\<lparr>basicBlocks = [], children = [], counter = 0, parent = None, header = None,
               isRoot = True, isReducible = True, nestingLevel = 0, depthLevel = 0\<rparr>,
              \<lparr>basicBlocks = [Some 1], children = [], counter = 1, parent = None,
               header = Some 1, isRoot = False, isReducible = False, nestingLevel = 0,
               depthLevel = 0\<rparr>]\<rparr>"

lemma build_tail:
  "build (new_world, new_CFG) [CreateNode (0::nat) 0, CreateNode 1 1, NewEdge 0 1, NewEdge 1 1]
     = Inr (\<lparr>blocks = tail_blocks, numBasicBlocks = 2\<rparr>, tail_cfg)"
  by code_simp

lemma findLoops_tail: "findLoops tail_blocks tail_cfg new_LSG = Some (Inr (2, tail_forest))"
  by code_simp

text \<open>
  C10. Every loop that \<open>findLoops\<close> creates has a header, and the header is the first
  element of the loop's list of members. The checksum of such a loop therefore mixes
  in the header block twice in a row: after the serial id, the two flags and the two
  levels, the name of the header block is mixed in once for the header and once more
  for the first member, and only then come the other members and the children. (What
  identifies a block in the checksum is its \<open>name\<close>.)
\<close>

theorem header_is_first_member:
  assumes "findLoops bs cfg g0 = Some (Inr (n, g))"
    and "length (objs g0) \<le> l" and "l < length (objs g)"
  shows "\<exists>h rest.
     header (objs g ! l) = Some h \<and> basicBlocks (objs g ! l) = Some h # rest \<and>
     (\<forall>fuel. checksum (Suc fuel) bs (objs g) l =
        (case deref bs h of
           None \<Rightarrow> Some (Inl TypeError)
         | Some hb \<Rightarrow>
             (case mixNames bs rest
                     (mix (mix (mix (mix (mix (mix (counter (objs g ! l))
                         (if isRoot (objs g ! l) then 1 else 0))
                         (if isReducible (objs g ! l) then 1 else 0))
                         (nestingLevel (objs g ! l)))
                         (depthLevel (objs g ! l)))
                         (int (name hb)))
                         (int (name hb))) of
                Inl e \<Rightarrow> Some (Inl e)
              | Inr result \<Rightarrow> mixChildren fuel bs (objs g) (children (objs g ! l)) result)))"
proof -
  from findLoops_forest_from [OF assms(1)] assms(2,3) obtain h rest where
    h: "header (objs g ! l) = Some h" and m: "basicBlocks (objs g ! l) = Some h # rest"
    by (auto simp: forest_from_def)
  have "checksum (Suc fuel) bs (objs g) l =
        (case deref bs h of
           None \<Rightarrow> Some (Inl TypeError)
         | Some hb \<Rightarrow>
             (case mixNames bs rest
                     (mix (mix (mix (mix (mix (mix (counter (objs g ! l))
                         (if isRoot (objs g ! l) then 1 else 0))
                         (if isReducible (objs g ! l) then 1 else 0))
                         (nestingLevel (objs g ! l)))
                         (depthLevel (objs g ! l)))
                         (int (name hb)))
                         (int (name hb))) of
                Inl e \<Rightarrow> Some (Inl e)
              | Inr result \<Rightarrow> mixChildren fuel bs (objs g) (children (objs g ! l)) result))"
    for fuel
    using assms(3) h m by (simp add: deref_def Let_def split: option.splits sum.splits)
  with h m show ?thesis by blast
qed

text \<open>
  On the graph above the loop found has the header 1 and the members \<open>[1]\<close>, and its
  checksum is 67: the serial id 1 and four times 0 give 16, and the name 1 mixed in
  twice gives 33 and then 67.
\<close>

lemma loopChecksum_tail: "checksum 3 tail_blocks (objs tail_forest) 1 = Some (Inr 67)"
  by code_simp

theorem header_is_first_member_witness:
  "findLoops tail_blocks tail_cfg new_LSG = Some (Inr (2, tail_forest)) \<and>
   header (objs tail_forest ! 1) = Some 1 \<and>
   basicBlocks (objs tail_forest ! 1) = [Some 1] \<and>
   deref tail_blocks 1 = Some \<lparr>name = 1, id' = 1, inEdges = [0, 1], outEdges = [1]\<rparr> \<and>
   checksum 3 tail_blocks (objs tail_forest) 1
     = Some (Inr (mix (mix (mix (mix (mix (mix 1 0) 0) 0) 0) 1) 1)) \<and>
   checksum 3 tail_blocks (objs tail_forest) 1 = Some (Inr 67)"
proof -
  have "length (objs new_LSG) \<le> 1" and "1 < length (objs tail_forest)"
    by (simp_all add: new_LSG_def tail_forest_def)
  from header_is_first_member [OF findLoops_tail this] obtain h rest where
    h: "header (objs tail_forest ! 1) = Some h"
      "basicBlocks (objs tail_forest ! 1) = Some h # rest" and
    c: "\<forall>fuel. checksum (Suc fuel) tail_blocks (objs tail_forest) 1 =
        (case deref tail_blocks h of
           None \<Rightarrow> Some (Inl TypeError)
         | Some hb \<Rightarrow>
             (case mixNames tail_blocks rest
                     (mix (mix (mix (mix (mix (mix (counter (objs tail_forest ! 1))
                         (if isRoot (objs tail_forest ! 1) then 1 else 0))
                         (if isReducible (objs tail_forest ! 1) then 1 else 0))
                         (nestingLevel (objs tail_forest ! 1)))
                         (depthLevel (objs tail_forest ! 1)))
                         (int (name hb)))
                         (int (name hb))) of
                Inl e \<Rightarrow> Some (Inl e)
              | Inr result \<Rightarrow>
                  mixChildren fuel tail_blocks (objs tail_forest)
                    (children (objs tail_forest ! 1)) result))"
    by blast
  from h have hr: "h = 1" "rest = []" by (simp_all add: tail_forest_def)
  have d: "deref tail_blocks 1 = Some \<lparr>name = 1, id' = 1, inEdges = [0, 1], outEdges = [1]\<rparr>"
    by (simp add: deref_def tail_blocks_def)
  have three: "(3::nat) = Suc 2" by simp
  from c [rule_format, of 2] hr d
  have "checksum 3 tail_blocks (objs tail_forest) 1
          = Some (Inr (mix (mix (mix (mix (mix (mix 1 0) 0) 0) 0) 1) 1))"
    unfolding three by (simp add: tail_forest_def)
  with findLoops_tail h hr d loopChecksum_tail show ?thesis by simp
qed

section \<open>Edges between blocks that the graph does not hold\<close>

definition two_blocks :: "string world" where
  "two_blocks =
     \<lparr>blocks = [\<lparr>name = ''a'', id' = 0, inEdges = [], outEdges = []\<rparr>,
                \<lparr>name = ''b'', id' = 1, inEdges = [], outEdges = []\<rparr>],
      numBasicBlocks = 2\<rparr>"

lemma two_blocks_constructed:
  "new_BasicBlock (snd (new_BasicBlock new_world ''a'' 0)) ''b'' 1 = (1, two_blocks)"
  by (simp add: new_BasicBlock_def new_world_def two_blocks_def)

text \<open>
  C8, as the claim states it, fails: two blocks made by the constructor of
  \<open>BasicBlock\<close> are registered in no graph, and the construction of an edge between
  them in a new graph returns normally, with the edge in the graph's list of edges.
\<close>

theorem edge_between_unregistered_blocks_counterexample:
  "new_BasicBlock (snd (new_BasicBlock new_world ''a'' 0)) ''b'' 1 = (1, two_blocks)
   \<and> \<not> registered new_CFG 0 \<and> \<not> registered new_CFG 1
   \<and> new_BasicBlockEdge two_blocks new_CFG 0 1 =
       Inr (\<lparr>blocks = [\<lparr>name = ''a'', id' = 0, inEdges = [], outEdges = [1]\<rparr>,
                         \<lparr>name = ''b'', id' = 1, inEdges = [0], outEdges = []\<rparr>],
              numBasicBlocks = 2\<rparr>,
            \<lparr>basicBlockMap = [], edgeList = [(0, 1)], startNode = None\<rparr>)"
  using two_blocks_constructed
  by (simp add: registered_def new_CFG_def new_BasicBlockEdge_def addOutEdge_def addInEdge_def
        addEdge_def deref_def two_blocks_def)

text \<open>
  C8, amended. The construction of an edge does not look at what the graph holds. For
  any two block objects, registered or not, it returns normally: it appends \<open>to\<close> to the
  out-edges of \<open>from\<close> and \<open>from\<close> to the in-edges of \<open>to\<close>, and appends the edge to the
  graph's list of edges, changing nothing else of the graph.
\<close>

theorem new_BasicBlockEdge_checks_nothing:
  assumes "from < length (blocks wd)" and "to < length (blocks wd)"
  shows "\<exists>wd2. new_BasicBlockEdge wd cfg from to
                 = Inr (wd2, cfg\<lparr>edgeList := edgeList cfg @ [(from, to)]\<rparr>)
     \<and> length (blocks wd2) = length (blocks wd)
     \<and> outEdges (blocks wd2 ! from) = outEdges (blocks wd ! from) @ [to]
     \<and> inEdges (blocks wd2 ! to) = inEdges (blocks wd ! to) @ [from]"
  using assms
  by (cases "from = to")
     (simp_all add: new_BasicBlockEdge_def addOutEdge_def addInEdge_def addEdge_def deref_def)

theorem new_BasicBlockEdge_checks_nothing_witness:
  "\<exists>wd2. new_BasicBlockEdge two_blocks new_CFG 0 1
                 = Inr (wd2, new_CFG\<lparr>edgeList := edgeList new_CFG @ [(0, 1)]\<rparr>)
     \<and> length (blocks wd2) = length (blocks two_blocks)
     \<and> outEdges (blocks wd2 ! 0) = outEdges (blocks two_blocks ! 0) @ [1]
     \<and> inEdges (blocks wd2 ! 1) = inEdges (blocks two_blocks ! 1) @ [0]"
proof -
  have "0 < length (blocks two_blocks)" and "1 < length (blocks two_blocks)"
    by (simp_all add: two_blocks_def)
  from new_BasicBlockEdge_checks_nothing [OF this] show ?thesis .
qed

section \<open>The representative of a union-find node\<close>

text \<open>
  A node is a representative when it is its own parent.
\<close>

definition is_root :: "(nat \<rightharpoonup> UnionFindNode) \<Rightarrow> nat \<Rightarrow> bool" where
  "is_root ns i = (\<exists>n. ns i = Some n \<and> parent n = Some i)"

text \<open>
  The class \<open>UnionFindNode\<close> is not exported: the calls of \<open>initNode\<close>, \<open>findSet\<close> and
  \<open>union\<close> are those of \<open>findLoops\<close>. The nodes are the \<open>k\<close> slots of the array \<open>nodes\<close>,
  each at the index that \<open>DFS\<close> gives it as its depth-first number, or left without a
  parent when \<open>DFS\<close> does not reach it. \<open>findSet\<close> is called in steps d and e. The one
  call of \<open>union\<close>, in the loop over the node pool, unites a representative taken from
  the pool with \<open>nodes[w]\<close>, the node of the header: the header has the smaller
  depth-first number, and its node is still a representative. The set \<open>uf_states k\<close>
  holds the states of the parent links that such calls lead to.
\<close>

inductive_set uf_states :: "nat \<Rightarrow> (nat \<rightharpoonup> UnionFindNode) set" for k :: nat where
  init:
    "(\<forall>i n. ns i = Some n \<longrightarrow> i < k \<and> (parent n = None \<or> parent n = Some i))
       \<Longrightarrow> ns \<in> uf_states k"
| find: "ns \<in> uf_states k \<Longrightarrow> findSet ns x = Inr (r, ns2) \<Longrightarrow> ns2 \<in> uf_states k"
| union:
    "ns \<in> uf_states k \<Longrightarrow> is_root ns x \<Longrightarrow> is_root ns w \<Longrightarrow> w < x
       \<Longrightarrow> union ns x w \<in> uf_states k"

text \<open>
  In these states a parent link leads to a node of a smaller index that has a parent
  itself, or back to the node.
\<close>

definition uf_down :: "nat \<Rightarrow> (nat \<rightharpoonup> UnionFindNode) \<Rightarrow> bool" where
  "uf_down k ns =
     (\<forall>i n. ns i = Some n \<longrightarrow>
        i < k \<and> (\<forall>p. parent n = Some p \<longrightarrow> p \<le> i \<and> (\<exists>m. ns p = Some m \<and> parent m \<noteq> None)))"

lemma uf_downD:
  assumes "uf_down k ns" and "ns i = Some n"
  shows "i < k"
    and "\<And>p. parent n = Some p \<Longrightarrow> p \<le> i \<and> (\<exists>m. ns p = Some m \<and> parent m \<noteq> None)"
proof -
  from assms have a: "i < k \<and>
      (\<forall>p. parent n = Some p \<longrightarrow> p \<le> i \<and> (\<exists>m. ns p = Some m \<and> parent m \<noteq> None))"
    unfolding uf_down_def by (elim allE [of _ i] allE [of _ n] impE) assumption+
  from a show "i < k" by (rule conjunct1)
  from a show "p \<le> i \<and> (\<exists>m. ns p = Some m \<and> parent m \<noteq> None)" if "parent n = Some p" for p
    using that by blast
qed

lemma findSet_while_root:
  assumes "ns r = Some rn" and "parent rn = Some r"
  shows "findSet_while ns r l = Inr (r, l)"
  using assms by (subst findSet_while.simps) simp

lemma findSet_while_down:
  assumes d: "uf_down k ns"
  shows "ns node = Some n \<Longrightarrow> parent n \<noteq> None \<Longrightarrow>
         length nodeList + node \<le> MAX_ARRAY_LENGTH \<Longrightarrow>
         \<exists>r l. findSet_while ns node nodeList = Inr (r, nodeList @ l) \<and> r \<le> node \<and>
               is_root ns r \<and> (\<forall>z\<in>set l. r < z \<and> ns z \<noteq> None) \<and>
               (node = r \<or> node \<in> set l \<or> parent n = Some r)"
proof (induction node arbitrary: n nodeList rule: less_induct)
  case (less node)
  from less.prems(2) obtain p where p: "parent n = Some p" by blast
  from uf_downD(2) [OF d less.prems(1) p] obtain pn where
    pl: "p \<le> node" and pn: "ns p = Some pn" "parent pn \<noteq> None" by blast
  show ?case
  proof (cases "p = node")
    case True
    with p less.prems(1) have "findSet_while ns node nodeList = Inr (node, nodeList @ [])"
      by (simp add: findSet_while_root)
    moreover from True p less.prems(1) have "is_root ns node" by (simp add: is_root_def)
    ultimately show ?thesis by (intro exI [of _ node] exI [of _ "[]"]) simp
  next
    case False
    with pl have lt: "p < node" by simp
    show ?thesis
    proof (cases "parent pn = Some p")
      case True
      with pn have "findSet_while ns p nodeList = Inr (p, nodeList)"
        by (simp add: findSet_while_root)
      with less.prems(1) p pn True False
      have "findSet_while ns node nodeList = Inr (p, nodeList @ [])"
        by (subst findSet_while.simps) simp
      moreover from True pn have "is_root ns p" by (simp add: is_root_def)
      ultimately show ?thesis using pl p by (intro exI [of _ p] exI [of _ "[]"]) simp
    next
      case nr: False
      from lt less.prems(3) have room: "length nodeList < MAX_ARRAY_LENGTH"
        and le: "length (nodeList @ [node]) + p \<le> MAX_ARRAY_LENGTH" by simp_all
      from less.IH [OF lt pn le] obtain r l where
        f: "findSet_while ns p (nodeList @ [node]) = Inr (r, (nodeList @ [node]) @ l)" and
        r: "r \<le> p" "is_root ns r" and l: "\<forall>z\<in>set l. r < z \<and> ns z \<noteq> None"
        by blast
      from less.prems(1) p pn nr False room f
      have "findSet_while ns node nodeList = Inr (r, nodeList @ (node # l))"
        by (subst findSet_while.simps) simp
      moreover from r lt l less.prems(1) have "\<forall>z\<in>set (node # l). r < z \<and> ns z \<noteq> None"
        by simp
      moreover from r lt have "r \<le> node" by simp
      ultimately show ?thesis using r(2)
        by (intro exI [of _ r] exI [of _ "node # l"]) simp
    qed
  qed
qed

lemma foldl_setUFParent_apply:
  "foldl (\<lambda>ns' x. setUFParent ns' x p) ns l i =
     (if i \<in> set l then map_option (\<lambda>n. n\<lparr>parent := p\<rparr>) (ns i) else ns i)"
proof (induction l arbitrary: ns)
  case Nil
  show ?case by simp
next
  case (Cons z l)
  have "foldl (\<lambda>ns' x. setUFParent ns' x p) ns (z # l) i =
          foldl (\<lambda>ns' x. setUFParent ns' x p) (setUFParent ns z p) l i"
    by simp
  also have "\<dots> = (if i \<in> set l then map_option (\<lambda>n. n\<lparr>parent := p\<rparr>) (setUFParent ns z p i)
                     else setUFParent ns z p i)"
    by (rule Cons.IH)
  also have "\<dots> = (if i \<in> set (z # l) then map_option (\<lambda>n. n\<lparr>parent := p\<rparr>) (ns i) else ns i)"
    by (auto simp: setUFParent_def split: option.splits)
  finally show ?case .
qed

text \<open>
  What \<open>findSet\<close> does in such a state, when the node has a parent: it returns a
  representative of an index that is not larger, and it gives that representative as
  parent to the nodes of a list \<open>l\<close>, which lie above it.
\<close>

lemma findSet_down:
  assumes d: "uf_down k ns" and n: "ns x = Some n" "parent n \<noteq> None"
    and k: "k \<le> MAX_ARRAY_LENGTH"
  shows "\<exists>r l. findSet ns x = Inr (r, foldl (\<lambda>ns' z. setUFParent ns' z (Some r)) ns l) \<and>
               r \<le> x \<and> is_root ns r \<and> (\<forall>z\<in>set l. r < z \<and> ns z \<noteq> None) \<and>
               (x = r \<or> x \<in> set l \<or> parent n = Some r)"
proof -
  from uf_downD(1) [OF d n(1)] k have "length ([]::nat list) + x \<le> MAX_ARRAY_LENGTH" by simp
  from findSet_while_down [OF d n this] obtain r l where
    f: "findSet_while ns x [] = Inr (r, [] @ l)" and
    r: "r \<le> x" "is_root ns r" "\<forall>z\<in>set l. r < z \<and> ns z \<noteq> None"
       "x = r \<or> x \<in> set l \<or> parent n = Some r"
    by blast
  from f have "findSet ns x = Inr (r, foldl (\<lambda>ns' z. setUFParent ns' z (Some r)) ns l)"
    by (simp add: findSet_def)
  with r show ?thesis by blast
qed

lemma findSet_returns_initialised:
  assumes "findSet ns x = Inr (r, ns2)"
  shows "\<exists>n. ns x = Some n \<and> parent n \<noteq> None"
proof (cases "ns x")
  case None
  then have "findSet_while ns x [] = Inl TypeError" by (subst findSet_while.simps) simp
  with assms show ?thesis by (simp add: findSet_def)
next
  case (Some n)
  show ?thesis
  proof (cases "parent n")
    case None
    with Some have "findSet_while ns x [] = Inl TypeError" by (subst findSet_while.simps) simp
    with assms show ?thesis by (simp add: findSet_def)
  next
    case (Some p)
    with \<open>ns x = Some n\<close> show ?thesis by simp
  qed
qed

lemma uf_down_compress:
  assumes d: "uf_down k ns" and r: "is_root ns r" and l: "\<forall>z\<in>set l. r < z \<and> ns z \<noteq> None"
  shows "uf_down k (foldl (\<lambda>ns' z. setUFParent ns' z (Some r)) ns l)"
  unfolding uf_down_def
proof (intro allI impI)
  let ?ns = "foldl (\<lambda>ns' z. setUFParent ns' z (Some r)) ns l"
  fix i n2 assume n2: "?ns i = Some n2"
  have init: "\<exists>m. ?ns p = Some m \<and> parent m \<noteq> None"
    if "ns p = Some m0" "parent m0 \<noteq> None" for p m0
    using that by (simp add: foldl_setUFParent_apply)
  from r obtain rn where rn: "ns r = Some rn" "parent rn = Some r" by (auto simp: is_root_def)
  show "i < k \<and> (\<forall>p. parent n2 = Some p \<longrightarrow> p \<le> i \<and> (\<exists>m. ?ns p = Some m \<and> parent m \<noteq> None))"
  proof (cases "i \<in> set l")
    case True
    with n2 obtain n where n: "ns i = Some n" "n2 = n\<lparr>parent := Some r\<rparr>"
      by (auto simp: foldl_setUFParent_apply)
    from True l have "r < i" by simp
    with uf_downD(1) [OF d n(1)] n(2) init [OF rn(1)] rn(2) show ?thesis by simp
  next
    case False
    with n2 have n: "ns i = Some n2" by (simp add: foldl_setUFParent_apply)
    have "p \<le> i \<and> (\<exists>m. ?ns p = Some m \<and> parent m \<noteq> None)" if p: "parent n2 = Some p" for p
    proof -
      from uf_downD(2) [OF d n p] obtain m0 where "p \<le> i" "ns p = Some m0" "parent m0 \<noteq> None"
        by blast
      with init [of p m0] show ?thesis by simp
    qed
    with uf_downD(1) [OF d n] show ?thesis by simp
  qed
qed

lemma uf_down_union:
  assumes d: "uf_down k ns" and x: "is_root ns x" and w: "is_root ns w" and lt: "w < x"
  shows "uf_down k (union ns x w)"
  unfolding uf_down_def
proof (intro allI impI)
  let ?ns = "union ns x w"
  fix i n2 assume n2: "?ns i = Some n2"
  from x obtain xn where xn: "ns x = Some xn" "parent xn = Some x" by (auto simp: is_root_def)
  from w obtain wn where wn: "ns w = Some wn" "parent wn = Some w" by (auto simp: is_root_def)
  have init: "\<exists>m. ?ns p = Some m \<and> parent m \<noteq> None"
    if "ns p = Some m0" "parent m0 \<noteq> None" for p m0
    using that xn by (simp add: union_def setUFParent_def)
  show "i < k \<and> (\<forall>p. parent n2 = Some p \<longrightarrow> p \<le> i \<and> (\<exists>m. ?ns p = Some m \<and> parent m \<noteq> None))"
  proof (cases "i = x")
    case True
    with n2 xn have "n2 = xn\<lparr>parent := Some w\<rparr>" by (simp add: union_def setUFParent_def)
    with True lt uf_downD(1) [OF d xn(1)] init [OF wn(1)] wn(2) show ?thesis by simp
  next
    case False
    with n2 xn have n: "ns i = Some n2" by (simp add: union_def setUFParent_def)
    have "p \<le> i \<and> (\<exists>m. ?ns p = Some m \<and> parent m \<noteq> None)" if p: "parent n2 = Some p" for p
    proof -
      from uf_downD(2) [OF d n p] obtain m0 where "p \<le> i" "ns p = Some m0" "parent m0 \<noteq> None"
        by blast
      with init [of p m0] show ?thesis by simp
    qed
    with uf_downD(1) [OF d n] show ?thesis by simp
  qed
qed

lemma uf_states_down:
  assumes "ns \<in> uf_states k" and k: "k \<le> MAX_ARRAY_LENGTH"
  shows "uf_down k ns"
  using assms(1)
proof (induction rule: uf_states.induct)
  case (init ns)
  show ?case unfolding uf_down_def
  proof (intro allI impI)
    fix i n assume n: "ns i = Some n"
    with init have "i < k" and "parent n = None \<or> parent n = Some i" by blast+
    with n show "i < k \<and> (\<forall>p. parent n = Some p \<longrightarrow> p \<le> i \<and> (\<exists>m. ns p = Some m \<and> parent m \<noteq> None))"
      by auto
  qed
next
  case (find ns x r ns2)
  from findSet_returns_initialised [OF find.hyps(2)] obtain n where
    n: "ns x = Some n" "parent n \<noteq> None" by blast
  from findSet_down [OF find.IH n k] find.hyps(2) obtain l where
    "ns2 = foldl (\<lambda>ns' z. setUFParent ns' z (Some r)) ns l" "is_root ns r"
    "\<forall>z\<in>set l. r < z \<and> ns z \<noteq> None"
    by auto
  with uf_down_compress [OF find.IH] show ?case by simp
next
  case (union ns x w)
  from uf_down_union [OF union.IH union.hyps(2,3,4)] show ?case .
qed

text \<open>
  On parent links that form a cycle, which no call of \<open>findLoops\<close> leads to, the loop
  of \<open>findSet\<close> pushes in every round and ends with the \<open>RangeError\<close>: the two nodes
  below are each the parent of the other.
\<close>

definition cycle_nodes :: "nat \<rightharpoonup> UnionFindNode" where
  "cycle_nodes =
     (newArray 2 new_UnionFindNode)
       (0 \<mapsto> \<lparr>dfsNumber = 0, parent = Some 1, bb = Some 0, loop = None\<rparr>,
        1 \<mapsto> \<lparr>dfsNumber = 1, parent = Some 0, bb = Some 1, loop = None\<rparr>)"

lemma findSet_while_cycle:
  "node = 0 \<or> node = 1 \<Longrightarrow> length nodeList \<le> MAX_ARRAY_LENGTH \<Longrightarrow>
     findSet_while cycle_nodes node nodeList = Inl RangeError"
proof (induction "MAX_ARRAY_LENGTH - length nodeList" arbitrary: node nodeList)
  case 0
  then have "\<not> length nodeList < MAX_ARRAY_LENGTH" by simp
  with "0.prems"(1) show ?case
    by (subst findSet_while.simps) (auto simp: cycle_nodes_def)
next
  case (Suc d)
  then have lt: "length nodeList < MAX_ARRAY_LENGTH" by simp
  have "findSet_while cycle_nodes (1 - node) (nodeList @ [node]) = Inl RangeError"
    using Suc.hyps(2) Suc.prems(1) lt by (intro Suc.hyps(1)) auto
  with Suc.prems(1) lt show ?case
    by (subst findSet_while.simps) (auto simp: cycle_nodes_def)
qed

lemma findSet_cycle: "findSet cycle_nodes 0 = Inl RangeError"
  by (simp add: findSet_def findSet_while_cycle)

text \<open>
  C9. In every state that the calls of \<open>findLoops\<close> lead to, with an array \<open>nodes\<close> of a
  length that an array can have, \<open>find\<close> on a node that \<open>initNode\<close> has initialised
  returns a node and raises nothing; a further \<open>find\<close> on the node returned gives the
  same node and leaves the parent links as they are, and so does a further \<open>find\<close> on
  the node asked first: \<open>node.find().find()\<close> is \<open>node.find()\<close>.
\<close>

theorem findSet_idempotent:
  assumes "ns \<in> uf_states k" and "k \<le> MAX_ARRAY_LENGTH"
    and "ns x = Some n" and "parent n \<noteq> None"
  shows "\<exists>r ns2. findSet ns x = Inr (r, ns2) \<and> findSet ns2 r = Inr (r, ns2) \<and>
                 findSet ns2 x = Inr (r, ns2) \<and> ns2 \<in> uf_states k"
proof -
  from uf_states_down [OF assms(1,2)] have d: "uf_down k ns" .
  from findSet_down [OF d assms(3,4,2)] obtain r l where
    f: "findSet ns x = Inr (r, foldl (\<lambda>ns' z. setUFParent ns' z (Some r)) ns l)" and
    r: "is_root ns r" and l: "\<forall>z\<in>set l. r < z \<and> ns z \<noteq> None" and
    x: "x = r \<or> x \<in> set l \<or> parent n = Some r"
    by blast
  let ?ns = "foldl (\<lambda>ns' z. setUFParent ns' z (Some r)) ns l"
  from r obtain rn where rn: "ns r = Some rn" "parent rn = Some r" by (auto simp: is_root_def)
  from l have "r \<notin> set l" by auto
  with rn have rn2: "?ns r = Some rn" by (simp add: foldl_setUFParent_apply)
  have wr: "findSet_while ?ns r [] = Inr (r, [])"
    using rn2 rn(2) by (rule findSet_while_root)
  then have fr: "findSet ?ns r = Inr (r, ?ns)" by (simp add: findSet_def)
  have "findSet_while ?ns x [] = Inr (r, [])"
  proof (cases "x = r")
    case True
    with wr show ?thesis by simp
  next
    case False
    have "\<exists>n2. ?ns x = Some n2 \<and> parent n2 = Some r"
    proof (cases "x \<in> set l")
      case True
      with assms(3) show ?thesis by (simp add: foldl_setUFParent_apply)
    next
      case nl: False
      with x False have "parent n = Some r" by simp
      with nl assms(3) show ?thesis by (simp add: foldl_setUFParent_apply)
    qed
    then obtain n2 where n2: "?ns x = Some n2" "parent n2 = Some r" by blast
    with False rn2 rn(2) wr show ?thesis
      by (subst findSet_while.simps) simp
  qed
  then have fx: "findSet ?ns x = Inr (r, ?ns)" by (simp add: findSet_def)
  from uf_states.find [OF assms(1) f] have "?ns \<in> uf_states k" .
  with f fr fx show ?thesis by blast
qed

text \<open>
  Three nodes after \<open>initNode\<close>, then the node 2 united with the node 1 and the node 1
  with the node 0.
\<close>

definition three_nodes :: "nat \<rightharpoonup> UnionFindNode" where
  "three_nodes =
     (newArray 3 new_UnionFindNode)
       (0 \<mapsto> initNode new_UnionFindNode 0 0 0, 1 \<mapsto> initNode new_UnionFindNode 1 1 1,
        2 \<mapsto> initNode new_UnionFindNode 2 2 2)"

definition chain_nodes :: "nat \<rightharpoonup> UnionFindNode" where
  "chain_nodes = union (union three_nodes 2 1) 1 0"

lemma chain_nodes_states: "chain_nodes \<in> uf_states 3"
proof -
  have a: "three_nodes \<in> uf_states 3"
    by (rule uf_states.init)
       (auto simp: three_nodes_def newArray_def initNode_def new_UnionFindNode_def
             split: if_splits)
  have b: "union three_nodes 2 1 \<in> uf_states 3"
    by (rule uf_states.union [OF a])
       (simp_all add: is_root_def three_nodes_def initNode_def)
  show ?thesis unfolding chain_nodes_def
    by (rule uf_states.union [OF b])
       (simp_all add: is_root_def three_nodes_def initNode_def union_def setUFParent_def)
qed

lemma chain_nodes_apply:
  "chain_nodes 2 = Some \<lparr>dfsNumber = 2, parent = Some 1, bb = Some 2, loop = None\<rparr>"
  "chain_nodes 1 = Some \<lparr>dfsNumber = 1, parent = Some 0, bb = Some 1, loop = None\<rparr>"
  "chain_nodes 0 = Some \<lparr>dfsNumber = 0, parent = Some 0, bb = Some 0, loop = None\<rparr>"
  "chain_nodes (Suc 0) = Some \<lparr>dfsNumber = 1, parent = Some 0, bb = Some 1, loop = None\<rparr>"
  by (simp_all add: chain_nodes_def three_nodes_def union_def setUFParent_def initNode_def
        new_UnionFindNode_def)

lemma findSet_chain:
  "findSet chain_nodes 2 = Inr (0, setUFParent chain_nodes 2 (Some 0))"
proof -
  have "findSet_while chain_nodes 0 [2] = Inr (0, [2])"
    by (rule findSet_while_root [where ns = chain_nodes and r = 0, OF chain_nodes_apply(3)]) simp
  then have "findSet_while chain_nodes 1 [2] = Inr (0, [2])"
    by (subst findSet_while.simps) (simp add: chain_nodes_apply)
  then have "findSet_while chain_nodes 2 [] = Inr (0, [2])"
    by (subst findSet_while.simps) (simp add: chain_nodes_apply MAX_ARRAY_LENGTH_def)
  then show ?thesis by (simp add: findSet_def)
qed

theorem findSet_idempotent_witness:
  "findSet chain_nodes 2 = Inr (0, setUFParent chain_nodes 2 (Some 0)) \<and>
   findSet (setUFParent chain_nodes 2 (Some 0)) 0 = Inr (0, setUFParent chain_nodes 2 (Some 0)) \<and>
   findSet (setUFParent chain_nodes 2 (Some 0)) 2 = Inr (0, setUFParent chain_nodes 2 (Some 0))"
proof -
  have "(3::nat) \<le> MAX_ARRAY_LENGTH" by (simp add: MAX_ARRAY_LENGTH_def)
  from findSet_idempotent [OF chain_nodes_states this chain_nodes_apply(1)]
  show ?thesis by (simp add: findSet_chain)
qed

section \<open>The bound on the non-backedge predecessors\<close>

text \<open>
  The rounds of the work list loop for the header \<open>w\<close>, from one state of the loop
  (the arrays, the node pool and the work list) to a later one, and the rounds of the
  header loop, from the headers still to do and the state to a later such pair.
\<close>

inductive workList_reaches ::
  "nat \<Rightarrow> locals \<times> nat list \<times> nat list \<Rightarrow> locals \<times> nat list \<times> nat list \<Rightarrow> bool"
  for w :: nat
where
  start: "workList_reaches w c c"
| round:
    "workList_reaches w c (st, nodePool, workList) \<Longrightarrow>
     0 < length workList \<Longrightarrow>
     nodes st (hd workList) = Some xn \<Longrightarrow>
     nonBackPreds st (dfsNumber xn) = Some l \<Longrightarrow>
     \<not> MAXNONBACKPREDS < length l \<Longrightarrow>
     stepE_for w (dfsNumber xn) 0 st nodePool (tl workList) = Some (Inr c2) \<Longrightarrow>
     workList_reaches w c c2"

inductive stepC_reaches ::
  "nat list \<times> locals \<times> LSG \<Rightarrow> nat list \<times> locals \<times> LSG \<Rightarrow> bool"
where
  start: "stepC_reaches c c"
| round:
    "stepC_reaches c (w # ws, stg) \<Longrightarrow>
     stepC_body w stg = Some (Inr (Next stg1)) \<Longrightarrow>
     stepC_reaches c (ws, stg1)"

lemma workList_reaches_same:
  "workList_reaches w c c2 \<Longrightarrow>
     (case c of (st, nodePool, workList) \<Rightarrow> workList_while w st nodePool workList)
       = (case c2 of (st, nodePool, workList) \<Rightarrow> workList_while w st nodePool workList)"
proof (induction rule: workList_reaches.induct)
  case start
  show ?case by simp
next
  case (round c st nodePool workList xn l c2)
  obtain st2 nodePool2 workList2 where c2: "c2 = (st2, nodePool2, workList2)" by (cases c2)
  have "workList_while w st nodePool workList = workList_while w st2 nodePool2 workList2"
    using round.hyps c2 by (subst workList_while.simps) simp
  with round.IH c2 show ?case by simp
qed

lemma workList_while_exceeds:
  assumes "0 < length workList" and "nodes st (hd workList) = Some xn"
    and "nonBackPreds st (dfsNumber xn) = Some l" and "MAXNONBACKPREDS < length l"
  shows "workList_while w st nodePool workList = Some (Inr Return0)"
  using assms by (subst workList_while.simps) simp

lemma stepC_reaches_same:
  "stepC_reaches c c2 \<Longrightarrow> stepC (fst c) (snd c) = stepC (fst c2) (snd c2)"
  by (induction rule: stepC_reaches.induct) simp_all

text \<open>
  C7, amended. The one list whose length is compared with the bound is the list of the
  node that the work list loop takes from the work list. When the work list loop of
  some header, in a run of \<open>findLoops\<close> on a graph with a start node, comes to take
  from the work list a node whose list of non-backedge predecessors is longer than
  \<open>MAXNONBACKPREDS\<close>, which is \<open>32 * 1024\<close>, the analysis stops there and \<open>findLoops\<close>
  returns 0: it returns normally and raises nothing.
\<close>

theorem exceeding_MAXNONBACKPREDS_returns_0:
  assumes "startNode cfg = Some start"
    and "stepsAB bs start (getNumNodes cfg) = Inr st0"
    and "stepC_reaches (rev [0..<getNumNodes cfg], st0, g0) (w # ws, st, g)"
    and "nodes st w = Some nw" and "bb nw = Some nodeW" and "backPreds st w = Some bp"
    and "stepD w bp st [] = Inr (st1, nodePool)"
    and "workList_reaches w
           (if length nodePool \<noteq> 0 then st1\<lparr>types := (types st1)(w \<mapsto> BB_REDUCIBLE)\<rparr> else st1,
            nodePool, nodePool)
           (st2, nodePool2, workList)"
    and "0 < length workList" and "nodes st2 (hd workList) = Some xn"
    and "nonBackPreds st2 (dfsNumber xn) = Some l" and "MAXNONBACKPREDS < length l"
  shows "findLoops bs cfg g0 = Some (Inr (0, g))"
proof -
  have "workList_while w st2 nodePool2 workList = Some (Inr Return0)"
    using assms(9-12) by (rule workList_while_exceeds)
  with workList_reaches_same [OF assms(8)]
  have "workList_while w
          (if length nodePool \<noteq> 0 then st1\<lparr>types := (types st1)(w \<mapsto> BB_REDUCIBLE)\<rparr> else st1)
          nodePool nodePool = Some (Inr Return0)"
    by simp
  with assms(4-7) have "stepC_body w (st, g) = Some (Inr Return0)"
    by (simp add: stepC_body_def Let_def)
  then have "stepC (w # ws) (st, g) = Some (Inr (0, g))" by simp
  with stepC_reaches_same [OF assms(3)]
  have "stepC (rev [0..<getNumNodes cfg]) (st0, g0) = Some (Inr (0, g))" by simp
  with assms(1,2) show ?thesis by (simp add: findLoops_def)
qed

lemma newArray_apply: "newArray n v i = (if i < n then Some v else None)"
  by (simp add: newArray_def)

lemma DFS_for_all_visited:
  assumes "deref bs c = Some b"
    and "\<And>i. target \<le> i \<Longrightarrow> i < length (outEdges b) \<Longrightarrow>
           \<exists>t. deref bs (outEdges b ! i) = Some t \<and> nums (name t) \<noteq> Some UNVISITED"
  shows "DFS_for bs c target (ns, nums, la) lastid = Inr ((ns, nums, la), lastid)"
  using assms(2)
proof (induction "length (outEdges b) - target" arbitrary: target)
  case 0
  with assms(1) show ?case by (subst DFS_for.simps) simp
next
  case (Suc d)
  then have t: "target < length (outEdges b)" by simp
  from Suc.prems [OF le_refl t] obtain tb where
    tb: "deref bs (outEdges b ! target) = Some tb" "nums (name tb) \<noteq> Some UNVISITED"
    by blast
  have "DFS_for bs c (target + 1) (ns, nums, la) lastid = Inr ((ns, nums, la), lastid)"
  proof (rule Suc.hyps(1))
    show "d = length (outEdges b) - (target + 1)" using Suc.hyps(2) by simp
    show "\<exists>t. deref bs (outEdges b ! i) = Some t \<and> nums (name t) \<noteq> Some UNVISITED"
      if "target + 1 \<le> i" "i < length (outEdges b)" for i
      using that Suc.prems [of i] by simp
  qed
  with assms(1) t tb show ?case by (subst DFS_for.simps) simp
qed

lemma stepB_inEdges_replicate:
  assumes "deref bs r = Some bv" and "numbers st (name bv) = v" and "v \<noteq> Some UNVISITED"
    and "\<not> isAncestor w v (last' st)" and "nonBackPreds st w = Some l"
  shows "stepB_inEdges bs w (replicate k r) st
           = Inr (st\<lparr>nonBackPreds := (nonBackPreds st)(w \<mapsto> l @ replicate k v)\<rparr>)"
  using assms
proof (induction k arbitrary: st l)
  case 0
  then show ?case by (simp add: fun_upd_idem)
next
  case (Suc k)
  let ?stB = "st\<lparr>nonBackPreds := (nonBackPreds st)(w \<mapsto> l @ [v])\<rparr>"
  have "stepB_inEdges bs w (replicate (Suc k) r) st = stepB_inEdges bs w (replicate k r) ?stB"
    using Suc.prems by (simp add: Let_def)
  also have "\<dots> = Inr (?stB\<lparr>nonBackPreds := (nonBackPreds ?stB)(w \<mapsto> (l @ [v]) @ replicate k v)\<rparr>)"
    using Suc.prems by (intro Suc.IH) simp_all
  also have "?stB\<lparr>nonBackPreds := (nonBackPreds ?stB)(w \<mapsto> (l @ [v]) @ replicate k v)\<rparr>
               = st\<lparr>nonBackPreds := (nonBackPreds st)(w \<mapsto> l @ replicate (Suc k) v)\<rparr>"
    by simp
  finally show ?case .
qed

text \<open>
  A graph of three blocks with \<open>k\<close> edges from the second block to the third, and the
  arrays after steps a and b on it.
\<close>

definition many_blocks :: "nat \<Rightarrow> nat BasicBlock list" where
  "many_blocks k =
     [\<lparr>name = 0, id' = 0, inEdges = [], outEdges = [1]\<rparr>,
      \<lparr>name = 1, id' = 1, inEdges = [0, 2], outEdges = replicate k 2\<rparr>,
      \<lparr>name = 2, id' = 2, inEdges = replicate k 1, outEdges = [1]\<rparr>]"

definition many_cfg :: CFG where
  "many_cfg = \<lparr>basicBlockMap = [(0, 0), (1, 1), (2, 2)], edgeList = [], startNode = Some 0\<rparr>"

definition many_locals :: "nat \<Rightarrow> locals" where
  "many_locals k =
     \<lparr>nonBackPreds = (newArray 3 [])(1 \<mapsto> [Some 0], 2 \<mapsto> replicate k (Some 1)),
      backPreds = (newArray 3 [])(1 \<mapsto> [Some 2]),
      numbers = (newArray 3 UNVISITED)(0 \<mapsto> 0, 1 \<mapsto> 1, 2 \<mapsto> 2),
      header' = newArray 3 0,
      types = newArray 3 BB_NONHEADER,
      last' = (newArray 3 0)(2 \<mapsto> 2, 1 \<mapsto> 2, 0 \<mapsto> 2),
      nodes = (newArray 3 new_UnionFindNode)
                (0 \<mapsto> initNode new_UnionFindNode 0 0 0,
                 1 \<mapsto> initNode new_UnionFindNode 1 1 1,
                 2 \<mapsto> initNode new_UnionFindNode 2 2 2)\<rparr>"

lemma deref_many:
  "deref (many_blocks k) 0 = Some \<lparr>name = 0, id' = 0, inEdges = [], outEdges = [1]\<rparr>"
  "deref (many_blocks k) 1 = Some \<lparr>name = 1, id' = 1, inEdges = [0, 2], outEdges = replicate k 2\<rparr>"
  "deref (many_blocks k) 2 = Some \<lparr>name = 2, id' = 2, inEdges = replicate k 1, outEdges = [1]\<rparr>"
  "deref (many_blocks k) (Suc 0) = Some \<lparr>name = 1, id' = 1, inEdges = [0, 2], outEdges = replicate k 2\<rparr>"
  by (simp_all add: deref_def many_blocks_def)

lemma DFS_many_2:
  assumes "ns 2 = Some n" and "nums 1 \<noteq> Some UNVISITED"
  shows "DFS (many_blocks k) 2 (ns, nums, la) 2
           = Inr ((ns(2 \<mapsto> initNode n 2 2 2), nums(2 \<mapsto> 2), la(2 \<mapsto> 2)), 2)"
proof -
  have "DFS_for (many_blocks k) 2 0 (ns(2 \<mapsto> initNode n 2 2 2), nums(2 \<mapsto> 2), la) 2
          = Inr ((ns(2 \<mapsto> initNode n 2 2 2), nums(2 \<mapsto> 2), la), 2)"
    using assms(2) by (intro DFS_for_all_visited [OF deref_many(3)]) (simp add: deref_many)
  with assms(1) show ?thesis
    by (subst DFS.simps) (simp add: deref_many setLast_def)
qed

lemma DFS_many_1:
  assumes "ns 1 = Some n1" and "ns 2 = Some n2" and "nums 2 = Some UNVISITED" and "0 < k"
  shows "DFS (many_blocks k) 1 (ns, nums, la) 1
           = Inr ((ns(1 \<mapsto> initNode n1 1 1 1, 2 \<mapsto> initNode n2 2 2 2),
                   nums(1 \<mapsto> 1, 2 \<mapsto> 2), la(2 \<mapsto> 2, 1 \<mapsto> 2)), 2)"
proof -
  let ?nsC = "ns(1 \<mapsto> initNode n1 1 1 1)" and ?numsC = "nums(1 \<mapsto> 1)"
  let ?nsB = "?nsC(2 \<mapsto> initNode n2 2 2 2)" and ?numsB = "?numsC(2 \<mapsto> 2)"
  have d2: "DFS (many_blocks k) 2 (?nsC, ?numsC, la) 2 = Inr ((?nsB, ?numsB, la(2 \<mapsto> 2)), 2)"
    using assms(2) by (intro DFS_many_2) (simp_all add: UNVISITED_def)
  have rest: "DFS_for (many_blocks k) 1 1 (?nsB, ?numsB, la(2 \<mapsto> 2)) 2
                = Inr ((?nsB, ?numsB, la(2 \<mapsto> 2)), 2)"
    by (intro DFS_for_all_visited [OF deref_many(2)]) (simp add: deref_many UNVISITED_def)
  have "DFS_for (many_blocks k) 1 0 (?nsC, ?numsC, la) 1 = Inr ((?nsB, ?numsB, la(2 \<mapsto> 2)), 2)"
    using assms(3,4) d2 rest
    by (subst DFS_for.simps) (simp add: deref_many numeral_2_eq_2 [symmetric])
  with assms(1) show ?thesis
    by (subst DFS.simps) (simp add: deref_many setLast_def)
qed

lemma stepsAB_many:
  assumes "0 < k"
  shows "stepsAB (many_blocks k) 0 3 = Inr (many_locals k)"
proof -
  let ?ns = "newArray 3 new_UnionFindNode" and ?nums = "newArray 3 UNVISITED"
  let ?la = "newArray 3 (0::nat)"
  let ?nsA = "?ns(0 \<mapsto> initNode new_UnionFindNode 0 0 0)" and ?numsA = "?nums(0 \<mapsto> 0)"
  let ?nsB = "?nsA(1 \<mapsto> initNode new_UnionFindNode 1 1 1, 2 \<mapsto> initNode new_UnionFindNode 2 2 2)"
  let ?numsB = "?numsA(1 \<mapsto> 1, 2 \<mapsto> 2)"
  have d1: "DFS (many_blocks k) 1 (?nsA, ?numsA, ?la) 1 = Inr ((?nsB, ?numsB, ?la(2 \<mapsto> 2, 1 \<mapsto> 2)), 2)"
    using assms by (intro DFS_many_1) (simp_all add: newArray_apply)
  have f0: "DFS_for (many_blocks k) 0 0 (?nsA, ?numsA, ?la) 0
              = Inr ((?nsB, ?numsB, ?la(2 \<mapsto> 2, 1 \<mapsto> 2)), 2)"
    using d1 apply (subst DFS_for.simps)
    apply (simp add: deref_many newArray_apply)
    apply (subst DFS_for.simps)
    apply (simp add: deref_many)
    done
  have d0: "DFS (many_blocks k) 0 (?ns, ?nums, ?la) 0
              = Inr ((?nsB, ?numsB, ?la(2 \<mapsto> 2, 1 \<mapsto> 2, 0 \<mapsto> 2)), 2)"
    by (subst DFS.simps) (simp add: deref_many newArray_apply f0 setLast_def)
  let ?stA = "(initLocals 3)\<lparr>nodes := ?nsB, numbers := ?numsB, last' := ?la(2 \<mapsto> 2, 1 \<mapsto> 2, 0 \<mapsto> 2)\<rparr>"
  have b0: "stepB_body (many_blocks k) 0 ?stA = Inr ?stA"
    by (simp add: stepB_body_def initNode_def deref_many getNumPred_def)
  let ?stB = "?stA\<lparr>nonBackPreds := (nonBackPreds ?stA)(1 \<mapsto> [Some 0]),
                   backPreds := (backPreds ?stA)(1 \<mapsto> [Some 2])\<rparr>"
  have b1: "stepB_body (many_blocks k) 1 ?stA = Inr ?stB"
    by (simp add: stepB_body_def initNode_def deref_many getNumPred_def isAncestor_def
          UNVISITED_def initLocals_def newArray_apply Let_def)
  have "stepB_inEdges (many_blocks k) 2 (replicate k 1) ?stB
          = Inr (?stB\<lparr>nonBackPreds := (nonBackPreds ?stB)(2 \<mapsto> [] @ replicate k (Some 1))\<rparr>)"
    by (rule stepB_inEdges_replicate [OF deref_many(2)])
       (simp_all add: isAncestor_def UNVISITED_def initLocals_def newArray_apply)
  then have b2: "stepB_body (many_blocks k) 2 ?stB = Inr (many_locals k)"
    using assms
    by (simp add: stepB_body_def initNode_def deref_many getNumPred_def many_locals_def
          initLocals_def)
  have "[0..<3] = [0, 1, 2]" by (simp add: upt_rec)
  with d0 b0 b1 b2 show ?thesis
    by (simp add: stepsAB_def Let_def initLocals_def)
qed

lemma many_locals_fields:
  "nodes (many_locals k) 2 = Some (initNode new_UnionFindNode 2 2 2)"
  "nodes (many_locals k) 1 = Some (initNode new_UnionFindNode 1 1 1)"
  "backPreds (many_locals k) 2 = Some []"
  "backPreds (many_locals k) 1 = Some [Some 2]"
  "nonBackPreds (many_locals k) 2 = Some (replicate k (Some 1))"
  "types (many_locals k) 2 = Some BB_NONHEADER"
  by (simp_all add: many_locals_def newArray_apply)

lemma stepC_body_many_2:
  "stepC_body 2 (many_locals k, g) = Some (Inr (Next (many_locals k, g)))"
  by (simp add: stepC_body_def many_locals_fields initNode_def workList_while.simps
        BB_NONHEADER_def BB_SELF_def)

lemma findSet_many_2: "findSet (nodes (many_locals k)) 2 = Inr (2, nodes (many_locals k))"
proof -
  have "findSet_while (nodes (many_locals k)) 2 [] = Inr (2, [])"
    by (rule findSet_while_root [where rn = "initNode new_UnionFindNode 2 2 2"])
       (simp_all add: many_locals_fields initNode_def)
  then show ?thesis by (simp add: findSet_def)
qed

lemma stepD_many_1:
  "stepD 1 [Some 2] (many_locals k) [] = Inr (many_locals k, [2])"
  by (simp add: arrayIndex_def findSet_many_2)

theorem exceeding_MAXNONBACKPREDS_returns_0_witness:
  "findLoops (many_blocks 32769) many_cfg new_LSG = Some (Inr (0, new_LSG))"
proof (rule exceeding_MAXNONBACKPREDS_returns_0)
  let ?st = "many_locals 32769"
  show "startNode many_cfg = Some 0" by (simp add: many_cfg_def)
  show "stepsAB (many_blocks 32769) 0 (getNumNodes many_cfg) = Inr ?st"
  proof -
    have "getNumNodes many_cfg = 3" by (simp add: getNumNodes_def many_cfg_def)
    with stepsAB_many [of 32769] show ?thesis by simp
  qed
  have "rev [0..<getNumNodes many_cfg] = [2, 1, 0]"
    by (simp add: getNumNodes_def many_cfg_def upt_rec)
  moreover have "stepC_reaches ([2, 1, 0], ?st, new_LSG) ([1, 0], ?st, new_LSG)"
    by (rule stepC_reaches.round [OF stepC_reaches.start stepC_body_many_2])
  ultimately show "stepC_reaches (rev [0..<getNumNodes many_cfg], ?st, new_LSG) (1 # [0], ?st, new_LSG)"
    by simp
  show "nodes ?st 1 = Some (initNode new_UnionFindNode 1 1 1)" by (rule many_locals_fields)
  show "bb (initNode new_UnionFindNode 1 1 1) = Some 1" by (simp add: initNode_def)
  show "backPreds ?st 1 = Some [Some 2]" by (rule many_locals_fields)
  show "stepD 1 [Some 2] ?st [] = Inr (?st, [2])" by (rule stepD_many_1)
  show "workList_reaches 1
          (if length [2::nat] \<noteq> 0 then ?st\<lparr>types := (types ?st)(1 \<mapsto> BB_REDUCIBLE)\<rparr> else ?st, [2], [2])
          (?st\<lparr>types := (types ?st)(1 \<mapsto> BB_REDUCIBLE)\<rparr>, [2], [2])"
    using workList_reaches.start [of 1 "(?st\<lparr>types := (types ?st)(1 \<mapsto> BB_REDUCIBLE)\<rparr>, [2], [2])"]
    by simp
  show "0 < length [2::nat]" by simp
  show "nodes (?st\<lparr>types := (types ?st)(1 \<mapsto> BB_REDUCIBLE)\<rparr>) (hd [2])
          = Some (initNode new_UnionFindNode 2 2 2)"
    by (simp add: many_locals_fields)
  show "nonBackPreds (?st\<lparr>types := (types ?st)(1 \<mapsto> BB_REDUCIBLE)\<rparr>)
          (dfsNumber (initNode new_UnionFindNode 2 2 2)) = Some (replicate 32769 (Some 1))"
    by (simp add: many_locals_fields initNode_def)
  show "MAXNONBACKPREDS < length (replicate 32769 (Some (1::int)))"
    by (simp add: MAXNONBACKPREDS_def)
qed

subsection \<open>Many edges into a header\<close>

text \<open>
  A graph of three blocks: the edges \<open>1 \<rightarrow> 2\<close> and \<open>2 \<rightarrow> 1\<close>, which make the block 1 the
  header of a loop, and then \<open>k\<close> edges from the start block 0 to the block 1.
\<close>

definition fan_blocks :: "nat \<Rightarrow> nat BasicBlock list" where
  "fan_blocks k =
     [\<lparr>name = 0, id' = 0, inEdges = [], outEdges = replicate k 1\<rparr>,
      \<lparr>name = 1, id' = 1, inEdges = 2 # replicate k 0, outEdges = [2]\<rparr>,
      \<lparr>name = 2, id' = 2, inEdges = [1], outEdges = [1]\<rparr>]"

definition fan_cfg :: "nat \<Rightarrow> CFG" where
  "fan_cfg k =
     \<lparr>basicBlockMap = [(0, 0), (1, 1), (2, 2)],
      edgeList = [(1, 2), (2, 1)] @ replicate k (0, 1), startNode = Some 0\<rparr>"

text \<open>The arrays after steps a and b on this graph.\<close>

definition fan_locals :: "nat \<Rightarrow> locals" where
  "fan_locals k =
     \<lparr>nonBackPreds = (newArray 3 [])(1 \<mapsto> replicate k (Some 0), 2 \<mapsto> [Some 1]),
      backPreds = (newArray 3 [])(1 \<mapsto> [Some 2]),
      numbers = (newArray 3 UNVISITED)(0 \<mapsto> 0, 1 \<mapsto> 1, 2 \<mapsto> 2),
      header' = newArray 3 0,
      types = newArray 3 BB_NONHEADER,
      last' = (newArray 3 0)(2 \<mapsto> 2, 1 \<mapsto> 2, 0 \<mapsto> 2),
      nodes = (newArray 3 new_UnionFindNode)
                (0 \<mapsto> initNode new_UnionFindNode 0 0 0,
                 1 \<mapsto> initNode new_UnionFindNode 1 1 1,
                 2 \<mapsto> initNode new_UnionFindNode 2 2 2)\<rparr>"

lemma deref_fan:
  "deref (fan_blocks k) 0 = Some \<lparr>name = 0, id' = 0, inEdges = [], outEdges = replicate k 1\<rparr>"
  "deref (fan_blocks k) 1 = Some \<lparr>name = 1, id' = 1, inEdges = 2 # replicate k 0, outEdges = [2]\<rparr>"
  "deref (fan_blocks k) 2 = Some \<lparr>name = 2, id' = 2, inEdges = [1], outEdges = [1]\<rparr>"
  "deref (fan_blocks k) (Suc 0) = Some \<lparr>name = 1, id' = 1, inEdges = 2 # replicate k 0, outEdges = [2]\<rparr>"
  by (simp_all add: deref_def fan_blocks_def)

lemma DFS_fan_2:
  assumes "ns 2 = Some n" and "nums 1 \<noteq> Some UNVISITED"
  shows "DFS (fan_blocks k) 2 (ns, nums, la) 2
           = Inr ((ns(2 \<mapsto> initNode n 2 2 2), nums(2 \<mapsto> 2), la(2 \<mapsto> 2)), 2)"
proof -
  have "DFS_for (fan_blocks k) 2 0 (ns(2 \<mapsto> initNode n 2 2 2), nums(2 \<mapsto> 2), la) 2
          = Inr ((ns(2 \<mapsto> initNode n 2 2 2), nums(2 \<mapsto> 2), la), 2)"
    using assms(2) by (intro DFS_for_all_visited [OF deref_fan(3)]) (simp add: deref_fan)
  with assms(1) show ?thesis
    by (subst DFS.simps) (simp add: deref_fan setLast_def)
qed

lemma DFS_fan_1:
  assumes "ns 1 = Some n1" and "ns 2 = Some n2" and "nums 2 = Some UNVISITED"
  shows "DFS (fan_blocks k) 1 (ns, nums, la) 1
           = Inr ((ns(1 \<mapsto> initNode n1 1 1 1, 2 \<mapsto> initNode n2 2 2 2),
                   nums(1 \<mapsto> 1, 2 \<mapsto> 2), la(2 \<mapsto> 2, 1 \<mapsto> 2)), 2)"
proof -
  let ?nsC = "ns(1 \<mapsto> initNode n1 1 1 1)" and ?numsC = "nums(1 \<mapsto> 1)"
  let ?nsB = "?nsC(2 \<mapsto> initNode n2 2 2 2)" and ?numsB = "?numsC(2 \<mapsto> 2)"
  have d2: "DFS (fan_blocks k) 2 (?nsC, ?numsC, la) 2 = Inr ((?nsB, ?numsB, la(2 \<mapsto> 2)), 2)"
    using assms(2) by (intro DFS_fan_2) (simp_all add: UNVISITED_def)
  have rest: "DFS_for (fan_blocks k) 1 1 (?nsB, ?numsB, la(2 \<mapsto> 2)) 2
                = Inr ((?nsB, ?numsB, la(2 \<mapsto> 2)), 2)"
    by (subst DFS_for.simps) (simp add: deref_fan)
  have "DFS_for (fan_blocks k) 1 0 (?nsC, ?numsC, la) 1 = Inr ((?nsB, ?numsB, la(2 \<mapsto> 2)), 2)"
    using assms(3) d2 rest
    by (subst DFS_for.simps) (simp add: deref_fan numeral_2_eq_2 [symmetric])
  with assms(1) show ?thesis
    by (subst DFS.simps) (simp add: deref_fan setLast_def)
qed

lemma stepsAB_fan:
  assumes "0 < k"
  shows "stepsAB (fan_blocks k) 0 3 = Inr (fan_locals k)"
proof -
  let ?ns = "newArray 3 new_UnionFindNode" and ?nums = "newArray 3 UNVISITED"
  let ?la = "newArray 3 (0::nat)"
  let ?nsA = "?ns(0 \<mapsto> initNode new_UnionFindNode 0 0 0)" and ?numsA = "?nums(0 \<mapsto> 0)"
  let ?nsB = "?nsA(1 \<mapsto> initNode new_UnionFindNode 1 1 1, 2 \<mapsto> initNode new_UnionFindNode 2 2 2)"
  let ?numsB = "?numsA(1 \<mapsto> 1, 2 \<mapsto> 2)"
  have d1: "DFS (fan_blocks k) 1 (?nsA, ?numsA, ?la) 1 = Inr ((?nsB, ?numsB, ?la(2 \<mapsto> 2, 1 \<mapsto> 2)), 2)"
    by (intro DFS_fan_1) (simp_all add: newArray_apply)
  have rest: "DFS_for (fan_blocks k) 0 1 (?nsB, ?numsB, ?la(2 \<mapsto> 2, 1 \<mapsto> 2)) 2
                = Inr ((?nsB, ?numsB, ?la(2 \<mapsto> 2, 1 \<mapsto> 2)), 2)"
    by (intro DFS_for_all_visited [OF deref_fan(1)]) (simp add: deref_fan UNVISITED_def)
  have f0: "DFS_for (fan_blocks k) 0 0 (?nsA, ?numsA, ?la) 0
              = Inr ((?nsB, ?numsB, ?la(2 \<mapsto> 2, 1 \<mapsto> 2)), 2)"
    using d1 rest assms
    by (subst DFS_for.simps) (simp add: deref_fan newArray_apply)
  have d0: "DFS (fan_blocks k) 0 (?ns, ?nums, ?la) 0
              = Inr ((?nsB, ?numsB, ?la(2 \<mapsto> 2, 1 \<mapsto> 2, 0 \<mapsto> 2)), 2)"
    by (subst DFS.simps) (simp add: deref_fan newArray_apply f0 setLast_def)
  let ?stA = "(initLocals 3)\<lparr>nodes := ?nsB, numbers := ?numsB, last' := ?la(2 \<mapsto> 2, 1 \<mapsto> 2, 0 \<mapsto> 2)\<rparr>"
  have b0: "stepB_body (fan_blocks k) 0 ?stA = Inr ?stA"
    by (simp add: stepB_body_def initNode_def deref_fan getNumPred_def)
  let ?stB = "?stA\<lparr>backPreds := (backPreds ?stA)(1 \<mapsto> [Some 2])\<rparr>"
  let ?stC = "?stB\<lparr>nonBackPreds := (nonBackPreds ?stB)(1 \<mapsto> [] @ replicate k (Some 0))\<rparr>"
  have "stepB_inEdges (fan_blocks k) 1 (replicate k 0) ?stB = Inr ?stC"
    by (rule stepB_inEdges_replicate [OF deref_fan(1)])
       (simp_all add: isAncestor_def UNVISITED_def initLocals_def newArray_apply)
  then have b1: "stepB_body (fan_blocks k) 1 ?stA = Inr ?stC"
    by (simp add: stepB_body_def initNode_def deref_fan getNumPred_def isAncestor_def
          UNVISITED_def initLocals_def newArray_apply Let_def)
  have b2: "stepB_body (fan_blocks k) 2 ?stC = Inr (fan_locals k)"
    by (simp add: stepB_body_def initNode_def deref_fan getNumPred_def isAncestor_def
          UNVISITED_def initLocals_def newArray_apply Let_def fan_locals_def fun_upd_twist)
  have "[0..<3] = [0, 1, 2]" by (simp add: upt_rec)
  with d0 b0 b1 b2 show ?thesis
    by (simp add: stepsAB_def Let_def initLocals_def)
qed


lemma fan_locals_fields:
  "nodes (fan_locals k) 2 = Some (initNode new_UnionFindNode 2 2 2)"
  "nodes (fan_locals k) 1 = Some (initNode new_UnionFindNode 1 1 1)"
  "nodes (fan_locals k) (Suc 0) = Some (initNode new_UnionFindNode 1 1 1)"
  "nodes (fan_locals k) 0 = Some (initNode new_UnionFindNode 0 0 0)"
  "backPreds (fan_locals k) 2 = Some []"
  "backPreds (fan_locals k) 1 = Some [Some 2]"
  "backPreds (fan_locals k) (Suc 0) = Some [Some 2]"
  "backPreds (fan_locals k) 0 = Some []"
  "nonBackPreds (fan_locals k) 2 = Some [Some 1]"
  "nonBackPreds (fan_locals k) 1 = Some (replicate k (Some 0))"
  "nonBackPreds (fan_locals k) (Suc 0) = Some (replicate k (Some 0))"
  "types (fan_locals k) 2 = Some BB_NONHEADER"
  "types (fan_locals k) 0 = Some BB_NONHEADER"
  "last' (fan_locals k) 1 = Some 2"
  "last' (fan_locals k) (Suc 0) = Some 2"
  by (simp_all add: fan_locals_def newArray_apply)

lemma stepC_body_fan_2:
  "stepC_body 2 (fan_locals k, g) = Some (Inr (Next (fan_locals k, g)))"
  by (simp add: stepC_body_def fan_locals_fields initNode_def workList_while.simps
        BB_NONHEADER_def BB_SELF_def)

lemma findSet_fan:
  "findSet (nodes (fan_locals k)) 2 = Inr (2, nodes (fan_locals k))"
  "findSet (nodes (fan_locals k)) 1 = Inr (1, nodes (fan_locals k))"
  "findSet (nodes (fan_locals k)) (Suc 0) = Inr (Suc 0, nodes (fan_locals k))"
proof -
  have "findSet_while (nodes (fan_locals k)) 2 [] = Inr (2, [])"
    by (rule findSet_while_root [where rn = "initNode new_UnionFindNode 2 2 2"])
       (simp_all add: fan_locals_fields initNode_def)
  then show "findSet (nodes (fan_locals k)) 2 = Inr (2, nodes (fan_locals k))"
    by (simp add: findSet_def)
  have "findSet_while (nodes (fan_locals k)) 1 [] = Inr (1, [])"
    by (rule findSet_while_root [where rn = "initNode new_UnionFindNode 1 1 1"])
       (simp_all add: fan_locals_fields initNode_def)
  then show "findSet (nodes (fan_locals k)) 1 = Inr (1, nodes (fan_locals k))"
    and "findSet (nodes (fan_locals k)) (Suc 0) = Inr (Suc 0, nodes (fan_locals k))"
    by (simp_all add: findSet_def)
qed

lemma stepD_fan_1:
  "stepD 1 [Some 2] (fan_locals k) [] = Inr (fan_locals k, [2])"
  by (simp add: arrayIndex_def findSet_fan)

text \<open>The arrays when the work list loop of the header 1 starts.\<close>

definition fan_reducible :: "nat \<Rightarrow> locals" where
  "fan_reducible k = (fan_locals k)\<lparr>types := (types (fan_locals k))(1 \<mapsto> BB_REDUCIBLE)\<rparr>"

lemma stepE_for_fan:
  "stepE_for 1 2 0 (fan_reducible k) [2] [] = Some (Inr (fan_reducible k, [2], []))"
proof -
  have e: "stepE_for 1 2 1 (fan_reducible k) [2] [] = Some (Inr (fan_reducible k, [2], []))"
    by (subst stepE_for.simps) (simp add: fan_reducible_def fan_locals_fields)
  have "fan_reducible k\<lparr>nodes := nodes (fan_locals k)\<rparr> = fan_reducible k"
    by (simp add: fan_reducible_def)
  with e show ?thesis
    by (subst stepE_for.simps)
       (simp add: fan_reducible_def fan_locals_fields arrayIndex_def findSet_fan initNode_def
          isAncestor_def)
qed

lemma workList_while_fan:
  "workList_while 1 (fan_reducible k) [2] [2] = Some (Inr (Next (fan_reducible k, [2])))"
proof -
  have "workList_while 1 (fan_reducible k) [2] [] = Some (Inr (Next (fan_reducible k, [2])))"
    by (subst workList_while.simps) simp
  with stepE_for_fan [of k] show ?thesis
    by (subst workList_while.simps)
       (simp add: fan_reducible_def fan_locals_fields initNode_def MAXNONBACKPREDS_def)
qed

lemma stepC_body_fan_1:
  "\<exists>st g. stepC_body 1 (fan_locals k, new_LSG) = Some (Inr (Next (st, g))) \<and>
          nodes st 0 = Some (initNode new_UnionFindNode 0 0 0) \<and> backPreds st 0 = Some [] \<and>
          types st 0 = Some BB_NONHEADER \<and> getNumLoops g = 2"
proof -
  have "\<exists>st g. newLoop 1 1 [2] (fan_reducible k, new_LSG) = Inr (st, g) \<and>
          nodes st 0 = Some (initNode new_UnionFindNode 0 0 0) \<and> backPreds st 0 = Some [] \<and>
          types st 0 = Some BB_NONHEADER \<and> getNumLoops g = 2"
    by (simp add: newLoop_def createNewLoop_def new_LSG_def fan_reducible_def fan_locals_fields
          Let_def union_def setUFParent_def addLoop_def getNumLoops_def initNode_def
          new_UnionFindNode_def)
  then obtain st g where n: "newLoop 1 1 [2] (fan_reducible k, new_LSG) = Inr (st, g)"
    and f: "nodes st 0 = Some (initNode new_UnionFindNode 0 0 0)" "backPreds st 0 = Some []"
      "types st 0 = Some BB_NONHEADER" "getNumLoops g = 2"
    by blast
  have "stepC_body 1 (fan_locals k, new_LSG) = Some (Inr (Next (st, g)))"
    using workList_while_fan [of k] n
    by (simp add: stepC_body_def fan_locals_fields initNode_def arrayIndex_def findSet_fan
          fan_reducible_def Let_def)
  with f show ?thesis by blast
qed

lemma stepC_body_fan_0:
  assumes "nodes st 0 = Some (initNode new_UnionFindNode 0 0 0)" and "backPreds st 0 = Some []"
    and "types st 0 = Some BB_NONHEADER"
  shows "stepC_body 0 (st, g) = Some (Inr (Next (st, g)))"
  using assms
  by (simp add: stepC_body_def initNode_def workList_while.simps BB_NONHEADER_def BB_SELF_def)

lemma findLoops_fan:
  assumes "0 < k"
  shows "\<exists>g. findLoops (fan_blocks k) (fan_cfg k) new_LSG = Some (Inr (2, g))"
proof -
  from stepC_body_fan_1 [of k] obtain st g where
    b1: "stepC_body 1 (fan_locals k, new_LSG) = Some (Inr (Next (st, g)))" and
    f: "nodes st 0 = Some (initNode new_UnionFindNode 0 0 0)" "backPreds st 0 = Some []"
       "types st 0 = Some BB_NONHEADER" and n: "getNumLoops g = 2"
    by blast
  have r: "rev [0..<3] = [2, 1, 0]" by (simp add: upt_rec)
  have sn: "startNode (fan_cfg k) = Some 0" and gn: "getNumNodes (fan_cfg k) = 3"
    by (simp_all add: fan_cfg_def getNumNodes_def)
  have c: "stepC [2, 1, 0] (fan_locals k, new_LSG) = Some (Inr (2, g))"
    using stepC_body_fan_2 [of k new_LSG] b1 stepC_body_fan_0 [OF f, of g] n
    by (simp add: numeral_2_eq_2)
  have "findLoops (fan_blocks k) (fan_cfg k) new_LSG =
          (case stepsAB (fan_blocks k) 0 3 of
             Inl e \<Rightarrow> Some (Inl e)
           | Inr st \<Rightarrow> stepC (rev [0..<3]) (st, new_LSG))"
    by (simp only: findLoops_def sn gn option.case)
  also have "\<dots> = stepC [2, 1, 0] (fan_locals k, new_LSG)"
    by (simp only: stepsAB_fan [OF assms] r sum.case)
  finally show ?thesis using c by (intro exI [of _ g]) simp
qed

text \<open>
  C7, as the claim states it, fails on this graph with 32769 edges from the start
  block to the header. After step b the list of non-backedge predecessors of the
  header holds 32769 entries, more than \<open>MAXNONBACKPREDS\<close>, and it still does when the
  work list loop of the header runs: the loop takes the node 2 from the work list,
  whose list holds one entry, and ends normally. The list of the header is never
  looked at, and \<open>findLoops\<close> returns 2, the number of loops of the forest, not 0.
\<close>

theorem long_list_of_the_header_counterexample:
  "stepsAB (fan_blocks 32769) 0 (getNumNodes (fan_cfg 32769)) = Inr (fan_locals 32769)
   \<and> nonBackPreds (fan_reducible 32769) 1 = Some (replicate 32769 (Some 0))
   \<and> MAXNONBACKPREDS < length (replicate 32769 (Some (0::int)))
   \<and> workList_while 1 (fan_reducible 32769) [2] [2]
        = Some (Inr (Next (fan_reducible 32769, [2])))
   \<and> (\<exists>g. findLoops (fan_blocks 32769) (fan_cfg 32769) new_LSG = Some (Inr (2, g)))"
proof -
  have "getNumNodes (fan_cfg 32769) = 3" by (simp add: fan_cfg_def getNumNodes_def)
  with stepsAB_fan [of 32769]
  have "stepsAB (fan_blocks 32769) 0 (getNumNodes (fan_cfg 32769)) = Inr (fan_locals 32769)"
    by simp
  moreover have "nonBackPreds (fan_reducible 32769) 1 = Some (replicate 32769 (Some 0))"
    by (simp add: fan_reducible_def fan_locals_fields)
  moreover have "MAXNONBACKPREDS < length (replicate 32769 (Some (0::int)))"
    by (simp add: MAXNONBACKPREDS_def)
  moreover note workList_while_fan [of 32769]
  moreover have "\<exists>g. findLoops (fan_blocks 32769) (fan_cfg 32769) new_LSG = Some (Inr (2, g))"
    by (rule findLoops_fan) simp
  ultimately show ?thesis by blast
qed

section \<open>The depth-first numbering\<close>

text \<open>
  The blocks that can be reached from a block along out-edges.
\<close>

inductive_set reachable :: "nat BasicBlock list \<Rightarrow> ref \<Rightarrow> ref set"
  for bs :: "nat BasicBlock list" and start :: ref
where
  start: "start \<in> reachable bs start"
| edge: "r \<in> reachable bs start \<Longrightarrow> deref bs r = Some b \<Longrightarrow> t \<in> set (outEdges b)
          \<Longrightarrow> t \<in> reachable bs start"







definition blockName :: "nat BasicBlock list \<Rightarrow> ref \<Rightarrow> nat" where
  "blockName bs r = name (bs ! r)"











subsection \<open>The order of the traversal\<close>












text \<open>
  The children of a block in the tree of the traversal are the targets of the edges
  that the test does not pass over, and the subtree of a block holds the block, its
  children, their children and so on.
\<close>

fun tree_children ::
  "nat BasicBlock list \<Rightarrow> (nat \<rightharpoonup> int) \<Rightarrow> (nat \<rightharpoonup> nat) \<Rightarrow> ref list \<Rightarrow> nat \<Rightarrow> ref list" where
  "tree_children bs nums la [] cur = []"
| "tree_children bs nums la (t # ts) cur =
     (case nums (blockName bs t) of
        None \<Rightarrow> []
      | Some v \<Rightarrow>
          if 0 \<le> v \<and> v \<le> int cur then tree_children bs nums la ts cur
          else if v = int cur + 1 then
            (case la (cur + 1) of
               None \<Rightarrow> []
             | Some l \<Rightarrow> if cur + 1 \<le> l then t # tree_children bs nums la ts l else [])
          else [])"

inductive_set subtree ::
  "nat BasicBlock list \<Rightarrow> (nat \<rightharpoonup> int) \<Rightarrow> (nat \<rightharpoonup> nat) \<Rightarrow> ref \<Rightarrow> ref set"
  for bs :: "nat BasicBlock list" and nums :: "nat \<rightharpoonup> int" and la :: "nat \<rightharpoonup> nat" and w :: ref
where
  root: "w \<in> subtree bs nums la w"
| child:
    "r \<in> subtree bs nums la w \<Longrightarrow> nums (blockName bs r) = Some (int j) \<Longrightarrow>
     t \<in> set (tree_children bs nums la (outEdges (bs ! r)) j) \<Longrightarrow> t \<in> subtree bs nums la w"






subsection \<open>Two blocks named 0 and 5\<close>









subsection \<open>A start block with edges to two blocks\<close>







end
